theory Spec2Isabelle
  imports Main "HOL-Library.Word" "HOL-Library.List_Lexorder" "HOL-Library.Product_Lexorder"
begin

unbundle bit_operations_syntax

section \<open>Data model of Lab02Code.py\<close>

text \<open>
  Python \<open>bytes\<close> are lists of 8-bit words.  Python compares \<open>bytes\<close> and tuples
  lexicographically, which is the order the two imported library theories put on lists
  and pairs.
\<close>

type_synonym byte = "8 word"
type_synonym bytes = "byte list"

text \<open>
  The source raises the generic \<open>Exception\<close> with a message, and Python itself raises
  \<open>AssertionError\<close> (a failed \<open>assert\<close>), \<open>IndexError\<close> (an index out of range) and
  \<open>struct.error\<close> (a value that does not fit the format of \<open>pack\<close>/\<open>unpack\<close>).
\<close>

datatype error = Exception string | AssertionError | IndexError | StructError

abbreviation MalformedMessage :: error where
  "MalformedMessage \<equiv> Exception ''Malformed input message''"

abbreviation MacVerificationFailure :: error where
  "MacVerificationFailure \<equiv> Exception ''HMAC check failure''"

text \<open>
  The library the source imports (petlib's \<open>EcGroup\<close>, \<open>Hmac\<close>, \<open>Cipher\<close>, and
  hashlib's \<open>sha512\<close>) is not part of the repository: its operations are parameters.
  Scalars (\<open>Bn\<close>) are unbounded integers; \<open>pt_mul a p\<close> is \<open>a * p\<close> for a scalar
  \<open>a\<close> and a point \<open>p\<close>.
\<close>

record 'p prims =
  check_point :: "'p \<Rightarrow> bool"
  pt_mul :: "int \<Rightarrow> 'p \<Rightarrow> 'p"
  generator :: "'p"
  export :: "'p \<Rightarrow> bytes"
  sha512 :: "bytes \<Rightarrow> bytes"
  hmac_sha512 :: "bytes \<Rightarrow> bytes \<Rightarrow> bytes"
  cipher_aes_128_ctr :: "bytes \<Rightarrow> bytes \<Rightarrow> bytes \<Rightarrow> bytes"

record 'p OneHopMixMessage =
  oh_ec_public_key :: "'p"
  oh_hmac :: bytes
  oh_address :: bytes
  oh_message :: bytes

record 'p NHopMixMessage =
  ec_public_key :: "'p"
  hmacs :: "bytes list"
  address :: bytes
  message :: bytes

text \<open>What \<open>mix_server_n_hop\<close> appends to its \<open>out_queue\<close>: a decoded tuple when
  \<open>final\<close> is set, a message for the next mix otherwise.\<close>

datatype 'p mix_output = Delivered "bytes \<times> bytes" | Forwarded "'p NHopMixMessage"

text \<open>What the source writes to standard output with \<open>print\<close>.\<close>

datatype print_event = PrintInt int | PrintServer bytes | PrintClient "bytes list"

section \<open>Library helpers used by the source\<close>

text \<open>\<open>xs[a:b]\<close> for \<open>0 \<le> a \<le> b\<close>.\<close>

definition slice :: "nat \<Rightarrow> nat \<Rightarrow> 'a list \<Rightarrow> 'a list" where
  "slice a b xs = drop a (take b xs)"

text \<open>\<open>Bn.from_binary\<close>: the big-endian value of a byte string.\<close>

definition bn_from_binary :: "bytes \<Rightarrow> int" where
  "bn_from_binary bs = foldl (\<lambda>acc b. acc * 256 + uint b) 0 bs"

text \<open>\<open>pack("!H<fld>s", n, s)\<close>: a big-endian 16-bit length, then \<open>s\<close> truncated or
  padded with null bytes to \<open>fld\<close> bytes; \<open>struct.error\<close> when \<open>n\<close> is not a 16-bit
  value.\<close>

definition pack_H_s :: "nat \<Rightarrow> nat \<Rightarrow> bytes \<Rightarrow> error + bytes" where
  "pack_H_s fld n s =
     (if n < 65536
      then Inr ([word_of_nat (n div 256), word_of_nat (n mod 256)]
                @ take fld s @ replicate (fld - length s) 0)
      else Inl StructError)"

text \<open>\<open>unpack("!H<fld>s", d)\<close>: \<open>struct.error\<close> unless \<open>d\<close> has \<open>2 + fld\<close> bytes.\<close>

definition unpack_H_s :: "nat \<Rightarrow> bytes \<Rightarrow> error + (nat \<times> bytes)" where
  "unpack_H_s fld d =
     (if length d = 2 + fld
      then Inr (unat (d ! 0) * 256 + unat (d ! 1), drop 2 d)
      else Inl StructError)"

text \<open>\<open>pack("H14s", i, s)\<close>: the 16-bit value in native byte order (little-endian on
  the usual hosts) and 14 bytes of \<open>s\<close>.  Client and server call it alike.\<close>

definition pack_H14s :: "nat \<Rightarrow> bytes \<Rightarrow> error + bytes" where
  "pack_H14s i s =
     (if i < 65536
      then Inr ([word_of_nat (i mod 256), word_of_nat (i div 256)]
                @ take 14 s @ replicate (14 - length s) 0)
      else Inl StructError)"

text \<open>\<open>secure_compare\<close> is equality, computed in constant time.  The source calls it
  on a MAC of 20 bytes and the first 20 bytes of a digest.\<close>

definition secure_compare :: "bytes \<Rightarrow> bytes \<Rightarrow> bool" where
  "secure_compare a b = (a = b)"

text \<open>\<open>xs.pop(j)\<close> (the list that remains) and \<open>xs.insert(j, x)\<close>.\<close>

definition list_pop :: "nat \<Rightarrow> 'a list \<Rightarrow> error + 'a list" where
  "list_pop j xs = (if j < length xs then Inr (take j xs @ drop (Suc j) xs) else Inl IndexError)"

definition list_insert :: "nat \<Rightarrow> 'a \<Rightarrow> 'a list \<Rightarrow> 'a list" where
  "list_insert j x xs = take j xs @ x # drop j xs"

section \<open>The source functions\<close>

definition aes_ctr_enc_dec :: "'p prims \<Rightarrow> bytes \<Rightarrow> bytes \<Rightarrow> bytes \<Rightarrow> bytes" where
  "aes_ctr_enc_dec P key iv input = cipher_aes_128_ctr P key iv input"

subsection \<open>One-hop mix\<close>

text \<open>The body of the loop of \<open>mix_server_one_hop\<close>, for one message.\<close>

definition one_hop_decode ::
  "'p prims \<Rightarrow> int \<Rightarrow> 'p OneHopMixMessage \<Rightarrow> error + (bytes \<times> bytes)" where
  "one_hop_decode P private_key msg =
     (if \<not> check_point P (oh_ec_public_key msg) \<or>
         \<not> length (oh_hmac msg) = 20 \<or>
         \<not> length (oh_address msg) = 258 \<or>
         \<not> length (oh_message msg) = 1002
      then Inl MalformedMessage
      else
        let shared_element = pt_mul P private_key (oh_ec_public_key msg);
            key_material = sha512 P (export P shared_element);
            hmac_key = slice 0 16 key_material;
            address_key = slice 16 32 key_material;
            message_key = slice 32 48 key_material;
            expected_mac = hmac_sha512 P hmac_key (oh_address msg @ oh_message msg)
        in if \<not> secure_compare (oh_hmac msg) (take 20 expected_mac)
           then Inl MacVerificationFailure
           else
             let iv = replicate 16 0;
                 address_plaintext = aes_ctr_enc_dec P address_key iv (oh_address msg);
                 message_plaintext = aes_ctr_enc_dec P message_key iv (oh_message msg)
             in case unpack_H_s 256 address_plaintext of
                  Inl e \<Rightarrow> Inl e
                | Inr (address_len, address_full) \<Rightarrow>
                    (case unpack_H_s 1000 message_plaintext of
                       Inl e \<Rightarrow> Inl e
                     | Inr (message_len, message_full) \<Rightarrow>
                         Inr (take address_len address_full, take message_len message_full)))"

text \<open>The loop over \<open>message_list\<close>: an exception leaves the loop and the function.\<close>

fun one_hop_loop ::
  "'p prims \<Rightarrow> int \<Rightarrow> 'p OneHopMixMessage list \<Rightarrow> (bytes \<times> bytes) list
     \<Rightarrow> error + (bytes \<times> bytes) list" where
  "one_hop_loop P private_key [] out_queue = Inr out_queue"
| "one_hop_loop P private_key (msg # rest) out_queue =
     (case one_hop_decode P private_key msg of
        Inl e \<Rightarrow> Inl e
      | Inr output \<Rightarrow> one_hop_loop P private_key rest (out_queue @ [output]))"

definition mix_server_one_hop ::
  "'p prims \<Rightarrow> int \<Rightarrow> 'p OneHopMixMessage list \<Rightarrow> error + (bytes \<times> bytes) list" where
  "mix_server_one_hop P private_key message_list =
     (case one_hop_loop P private_key message_list [] of
        Inl e \<Rightarrow> Inl e
      | Inr out_queue \<Rightarrow> Inr (sort out_queue))"

text \<open>\<open>mix_client_one_hop\<close>; the scalar drawn by \<open>G.order().random()\<close> is the
  argument \<open>private_key\<close>.\<close>

definition mix_client_one_hop ::
  "'p prims \<Rightarrow> int \<Rightarrow> 'p \<Rightarrow> bytes \<Rightarrow> bytes \<Rightarrow> error + 'p OneHopMixMessage" where
  "mix_client_one_hop P private_key public_key addr msg =
     (if \<not> check_point P public_key then Inl AssertionError
      else if \<not> length addr \<le> 256 then Inl AssertionError
      else if \<not> length msg \<le> 1000 then Inl AssertionError
      else
        case pack_H_s 256 (length addr) addr of
          Inl e \<Rightarrow> Inl e
        | Inr address_plaintext \<Rightarrow>
        (case pack_H_s 1000 (length msg) msg of
          Inl e \<Rightarrow> Inl e
        | Inr message_plaintext \<Rightarrow>
            let client_public_key = pt_mul P private_key (generator P);
                shared_element = pt_mul P private_key public_key;
                key_material = sha512 P (export P shared_element);
                hmac_key = slice 0 16 key_material;
                address_key = slice 16 32 key_material;
                message_key = slice 32 48 key_material;
                iv = replicate 16 0;
                address_cipher = aes_ctr_enc_dec P address_key iv address_plaintext;
                message_cipher = aes_ctr_enc_dec P message_key iv message_plaintext;
                expected_mac = take 20 (hmac_sha512 P hmac_key (address_cipher @ message_cipher))
            in Inr \<lparr>oh_ec_public_key = client_public_key, oh_hmac = expected_mac,
                    oh_address = address_cipher, oh_message = message_cipher\<rparr>))"

subsection \<open>N-hop mix: the server\<close>

text \<open>The loop that decrypts \<open>msg.hmacs[1:]\<close>, over \<open>enumerate(msg.hmacs[1:])\<close>.\<close>

fun decrypt_hmacs ::
  "'p prims \<Rightarrow> bytes \<Rightarrow> (nat \<times> bytes) list \<Rightarrow> bytes list \<Rightarrow> error + bytes list" where
  "decrypt_hmacs P hmac_key [] new_hmacs = Inr new_hmacs"
| "decrypt_hmacs P hmac_key ((i, other_mac) # rest) new_hmacs =
     (case pack_H14s i (replicate 14 0) of
        Inl e \<Rightarrow> Inl e
      | Inr iv \<Rightarrow>
          decrypt_hmacs P hmac_key rest
            (new_hmacs @ [aes_ctr_enc_dec P hmac_key iv other_mac]))"

text \<open>
  The body of the loop of \<open>mix_server_n_hop\<close>, for one message: what it prints, and
  the exception it raises or the \<open>out_msg\<close> it appends.  The test
  \<open>isinstance(msg.hmacs, list)\<close> holds by typing; \<open>msg.hmacs[0]\<close> is evaluated
  after \<open>check_point\<close> and before the two other lengths, and raises \<open>IndexError\<close> on
  an empty list.
\<close>

definition n_hop_decode ::
  "'p prims \<Rightarrow> int \<Rightarrow> bool \<Rightarrow> 'p NHopMixMessage
     \<Rightarrow> print_event list \<times> (error + 'p mix_output)" where
  "n_hop_decode P private_key final msg =
     (if \<not> check_point P (ec_public_key msg) then ([], Inl MalformedMessage)
      else case hmacs msg of
        [] \<Rightarrow> ([], Inl IndexError)
      | hmac0 # other_macs \<Rightarrow>
        if \<not> length hmac0 = 20 \<or>
           \<not> length (address msg) = 258 \<or>
           \<not> length (message msg) = 1002
        then ([], Inl MalformedMessage)
        else
          let shared_element = pt_mul P private_key (ec_public_key msg);
              key_material = sha512 P (export P shared_element);
              hmac_key = slice 0 16 key_material;
              address_key = slice 16 32 key_material;
              message_key = slice 32 48 key_material;
              blinding_factor = bn_from_binary (drop 48 key_material);
              new_ec_public_key = pt_mul P blinding_factor (ec_public_key msg);
              expected_mac =
                hmac_sha512 P hmac_key (concat other_macs @ address msg @ message msg);
              out = [PrintServer (take 20 expected_mac)]
          in if \<not> secure_compare hmac0 (take 20 expected_mac)
             then (out, Inl MacVerificationFailure)
             else
               (case decrypt_hmacs P hmac_key (enumerate 0 other_macs) [] of
                 Inl e \<Rightarrow> (out, Inl e)
               | Inr new_hmacs \<Rightarrow>
                 let iv = replicate 16 0;
                     address_plaintext = aes_ctr_enc_dec P address_key iv (address msg);
                     message_plaintext = aes_ctr_enc_dec P message_key iv (message msg)
                 in if final
                    then
                      (case unpack_H_s 256 address_plaintext of
                         Inl e \<Rightarrow> (out, Inl e)
                       | Inr (address_len, address_full) \<Rightarrow>
                           (case unpack_H_s 1000 message_plaintext of
                              Inl e \<Rightarrow> (out, Inl e)
                            | Inr (message_len, message_full) \<Rightarrow>
                                (out, Inr (Delivered (take address_len address_full,
                                                      take message_len message_full)))))
                    else
                      (out, Inr (Forwarded
                         \<lparr>ec_public_key = new_ec_public_key, hmacs = new_hmacs,
                          address = address_plaintext, message = message_plaintext\<rparr>))))"

text \<open>The loop over \<open>message_list\<close>, with the standard output and \<open>out_queue\<close> so
  far.  An exception ends the call; what was printed stays printed.\<close>

fun n_hop_loop ::
  "'p prims \<Rightarrow> int \<Rightarrow> bool \<Rightarrow> 'p NHopMixMessage list
     \<Rightarrow> print_event list \<times> 'p mix_output list
     \<Rightarrow> print_event list \<times> (error + 'p mix_output list)" where
  "n_hop_loop P private_key final [] (out, out_queue) = (out, Inr out_queue)"
| "n_hop_loop P private_key final (msg # rest) (out, out_queue) =
     (case n_hop_decode P private_key final msg of
        (pr, Inl e) \<Rightarrow> (out @ pr, Inl e)
      | (pr, Inr out_msg) \<Rightarrow>
          n_hop_loop P private_key final rest (out @ pr, out_queue @ [out_msg]))"

definition mix_server_n_hop ::
  "'p prims \<Rightarrow> int \<Rightarrow> 'p NHopMixMessage list \<Rightarrow> bool
     \<Rightarrow> print_event list \<times> (error + 'p mix_output list)" where
  "mix_server_n_hop P private_key message_list final =
     n_hop_loop P private_key final message_list ([], [])"

subsection \<open>N-hop mix: the client\<close>

text \<open>The first loop of \<open>mix_client_n_hop\<close>, over \<open>enumerate(public_keys)\<close> from
  index \<open>i\<close>, on the lists \<open>key_materials\<close> and \<open>private_keys\<close>.\<close>

fun derive_keys ::
  "'p prims \<Rightarrow> nat \<Rightarrow> 'p list \<Rightarrow> bytes list \<times> int list \<Rightarrow> bytes list \<times> int list" where
  "derive_keys P i [] (key_materials, private_keys) = (key_materials, private_keys)"
| "derive_keys P i (hop_public_key # rest) (key_materials, private_keys) =
     (let shared_element = pt_mul P (private_keys ! i) hop_public_key;
          key_material = sha512 P (export P shared_element);
          blinding_factor = bn_from_binary (drop 48 key_material);
          new_ec_private_key = blinding_factor * (private_keys ! i)
      in derive_keys P (Suc i) rest
           (key_materials @ [key_material], private_keys @ [new_ec_private_key]))"

text \<open>The inner loop of the second phase, over \<open>enumerate(hmacs[:counter])\<close>: the
  state is the data fed to the HMAC so far and the list \<open>hmacs\<close> (here \<open>macs\<close>).\<close>

fun encrypt_hmacs ::
  "'p prims \<Rightarrow> bytes \<Rightarrow> (nat \<times> bytes) list \<Rightarrow> bytes \<times> bytes list
     \<Rightarrow> error + (bytes \<times> bytes list)" where
  "encrypt_hmacs P hmac_key [] (h, macs) = Inr (h, macs)"
| "encrypt_hmacs P hmac_key ((j, other_mac) # rest) (h, macs) =
     (case pack_H14s j (replicate 14 0) of
        Inl e \<Rightarrow> Inl e
      | Inr iv \<Rightarrow>
          let hmac_cipher = aes_ctr_enc_dec P hmac_key iv other_mac
          in (case list_pop j macs of
               Inl e \<Rightarrow> Inl e
             | Inr popped \<Rightarrow>
                 encrypt_hmacs P hmac_key rest
                   (h @ hmac_cipher, list_insert j hmac_cipher popped)))"

text \<open>The body of the second loop, for the pair \<open>(i, key_material)\<close>; \<open>n\<close> is
  \<open>len(key_materials)\<close>, and the state is \<open>address_cipher\<close>, \<open>message_cipher\<close>,
  \<open>hmacs\<close> and \<open>counter\<close>.\<close>

definition client_layer ::
  "'p prims \<Rightarrow> nat \<Rightarrow> nat \<times> bytes \<Rightarrow> bytes \<times> bytes \<times> bytes list \<times> nat
     \<Rightarrow> print_event list \<times> (error + bytes \<times> bytes \<times> bytes list \<times> nat)" where
  "client_layer P n ikm st =
     (case (ikm, st) of ((i, key_material), (address_cipher0, message_cipher0, hmacs0, counter)) \<Rightarrow>
        let hmac_key = slice 0 16 key_material;
            address_key = slice 16 32 key_material;
            message_key = slice 32 48 key_material;
            iv = replicate 16 0;
            address_cipher = aes_ctr_enc_dec P address_key iv address_cipher0;
            message_cipher = aes_ctr_enc_dec P message_key iv message_cipher0;
            out = [PrintInt (int n - int i - 1)]
        in (case encrypt_hmacs P hmac_key (enumerate 0 (take counter hmacs0)) ([], hmacs0) of
             Inl e \<Rightarrow> (out, Inl e)
           | Inr (h, hmacs1) \<Rightarrow>
               let expected_mac =
                     take 20 (hmac_sha512 P hmac_key (h @ address_cipher @ message_cipher))
               in (out, Inr (address_cipher, message_cipher,
                             list_insert 0 expected_mac hmacs1, counter + 1))))"

fun client_layers ::
  "'p prims \<Rightarrow> nat \<Rightarrow> (nat \<times> bytes) list
     \<Rightarrow> print_event list \<times> (bytes \<times> bytes \<times> bytes list \<times> nat)
     \<Rightarrow> print_event list \<times> (error + bytes \<times> bytes \<times> bytes list \<times> nat)" where
  "client_layers P n [] (out, st) = (out, Inr st)"
| "client_layers P n (ikm # rest) (out, st) =
     (case client_layer P n ikm st of
        (pr, Inl e) \<Rightarrow> (out @ pr, Inl e)
      | (pr, Inr st') \<Rightarrow> client_layers P n rest (out @ pr, st'))"

text \<open>\<open>mix_client_n_hop\<close>; the scalar drawn by \<open>G.order().random()\<close> is the argument
  \<open>private_key\<close>.  The check of the public keys is commented out in the source.\<close>

definition mix_client_n_hop ::
  "'p prims \<Rightarrow> int \<Rightarrow> 'p list \<Rightarrow> bytes \<Rightarrow> bytes
     \<Rightarrow> print_event list \<times> (error + 'p NHopMixMessage)" where
  "mix_client_n_hop P private_key public_keys addr msg =
     (if \<not> length addr \<le> 256 then ([], Inl AssertionError)
      else if \<not> length msg \<le> 1000 then ([], Inl AssertionError)
      else
        case pack_H_s 256 (length addr) addr of
          Inl e \<Rightarrow> ([], Inl e)
        | Inr address_plaintext \<Rightarrow>
        (case pack_H_s 1000 (length msg) msg of
          Inl e \<Rightarrow> ([], Inl e)
        | Inr message_plaintext \<Rightarrow>
            let client_public_key = pt_mul P private_key (generator P);
                key_materials = fst (derive_keys P 0 public_keys ([], [private_key]))
            in (case client_layers P (length key_materials) (rev (enumerate 0 key_materials))
                      ([], (address_plaintext, message_plaintext, [], 0)) of
                 (out, Inl e) \<Rightarrow> (out, Inl e)
               | (out, Inr (address_cipher, message_cipher, hmacs1, counter)) \<Rightarrow>
                   (out @ [PrintClient hmacs1],
                    Inr \<lparr>ec_public_key = client_public_key, hmacs = hmacs1,
                         address = address_cipher, message = message_cipher\<rparr>))))"

section \<open>Running a cascade\<close>

text \<open>
  The source has no driver: a cascade is a caller handing the output batch of one
  \<open>mix_server_n_hop\<close> to the next, with \<open>final\<close> set at the last mix only.
\<close>

definition forwarded_messages :: "'p mix_output list \<Rightarrow> 'p NHopMixMessage list" where
  "forwarded_messages outs =
     concat (map (\<lambda>out. case out of Forwarded m \<Rightarrow> [m] | Delivered _ \<Rightarrow> []) outs)"

text \<open>Through the mixes \<open>rs\<close>, none of them final.\<close>

fun forward_cascade ::
  "'p prims \<Rightarrow> int list \<Rightarrow> 'p NHopMixMessage list \<Rightarrow> error + 'p NHopMixMessage list" where
  "forward_cascade P [] msgs = Inr msgs"
| "forward_cascade P (r # rs) msgs =
     (case snd (mix_server_n_hop P r msgs False) of
        Inl e \<Rightarrow> Inl e
      | Inr outs \<Rightarrow> forward_cascade P rs (forwarded_messages outs))"

text \<open>Through the mixes \<open>rs\<close>, the last of them final.\<close>

definition cascade ::
  "'p prims \<Rightarrow> int list \<Rightarrow> 'p NHopMixMessage list \<Rightarrow> error + 'p mix_output list" where
  "cascade P rs msgs =
     (case forward_cascade P (butlast rs) msgs of
        Inl e \<Rightarrow> Inl e
      | Inr msgs' \<Rightarrow> snd (mix_server_n_hop P (last rs) msgs' True))"

section \<open>What the library is assumed to do\<close>

text \<open>
  The properties of the library that the proofs use: scalar multiplication is a group
  action of the integers, multiples of the generator are points of the group, the two
  digests have 64 bytes, and the counter-mode cipher keeps the length of its input and is
  its own inverse under one key and initialisation vector.
\<close>

definition prims_ok :: "'p prims \<Rightarrow> bool" where
  "prims_ok P \<longleftrightarrow>
     (\<forall>a b p. pt_mul P a (pt_mul P b p) = pt_mul P (a * b) p) \<and>
     (\<forall>a. check_point P (pt_mul P a (generator P))) \<and>
     (\<forall>d. length (sha512 P d) = 64) \<and>
     (\<forall>k d. length (hmac_sha512 P k d) = 64) \<and>
     (\<forall>k iv d. length (cipher_aes_128_ctr P k iv d) = length d) \<and>
     (\<forall>k iv d. cipher_aes_128_ctr P k iv (cipher_aes_128_ctr P k iv d) = d)"

text \<open>
  A small instance of the library, with which the functions can be run: the points are
  the integers under addition (\<open>None\<close> is a value off the curve), the digests are
  checksums and the cipher xors every byte with a checksum of key and vector.
\<close>

definition toy_prims :: "int option prims" where
  "toy_prims =
     \<lparr>check_point = (\<lambda>p. p \<noteq> None),
      pt_mul = (\<lambda>a p. map_option (\<lambda>x. a * x) p),
      generator = Some 1,
      export = (\<lambda>p. case p of None \<Rightarrow> [] | Some x \<Rightarrow> [word_of_int x]),
      sha512 = (\<lambda>d. replicate 64 (sum_list d + 1)),
      hmac_sha512 = (\<lambda>k d. replicate 64 (sum_list k + sum_list d)),
      cipher_aes_128_ctr = (\<lambda>k iv d. map (\<lambda>b. b XOR (sum_list k + sum_list iv + 1)) d)\<rparr>"


text \<open>Flipping bit \<open>k\<close> of byte \<open>i\<close> of a byte string.\<close>

definition flip_bit :: "nat \<Rightarrow> nat \<Rightarrow> bytes \<Rightarrow> bytes" where
  "flip_bit i k bs = bs[i := (bs ! i) XOR push_bit k 1]"


section \<open>Closed forms of the loops\<close>

text \<open>The list of MACs, each encrypted (or decrypted) under the vector of its position,
  counted from \<open>k\<close>.\<close>

definition crypt_macs :: "'p prims \<Rightarrow> bytes \<Rightarrow> nat \<Rightarrow> bytes list \<Rightarrow> bytes list" where
  "crypt_macs P hmac_key k ms =
     map (\<lambda>(j, m). aes_ctr_enc_dec P hmac_key (projr (pack_H14s j (replicate 14 0))) m)
       (enumerate k ms)"

text \<open>The key materials and the later private keys of the client, by recursion along the
  public keys.\<close>

fun key_chain :: "'p prims \<Rightarrow> int \<Rightarrow> 'p list \<Rightarrow> bytes list" where
  "key_chain P x [] = []"
| "key_chain P x (pk # pks) =
     (let km = sha512 P (export P (pt_mul P x pk))
      in km # key_chain P (bn_from_binary (drop 48 km) * x) pks)"

fun priv_chain :: "'p prims \<Rightarrow> int \<Rightarrow> 'p list \<Rightarrow> int list" where
  "priv_chain P x [] = []"
| "priv_chain P x (pk # pks) =
     (let km = sha512 P (export P (pt_mul P x pk));
          x' = bn_from_binary (drop 48 km) * x
      in x' # priv_chain P x' pks)"

text \<open>The layers of the second loop, by recursion from the first hop inwards.\<close>

fun onion :: "'p prims \<Rightarrow> bytes list \<Rightarrow> bytes \<times> bytes \<Rightarrow> bytes \<times> bytes \<times> bytes list" where
  "onion P [] (a, m) = (a, m, [])"
| "onion P (km # kms) (a, m) =
     (case onion P kms (a, m) of (a1, m1, hs) \<Rightarrow>
        let a2 = aes_ctr_enc_dec P (slice 16 32 km) (replicate 16 0) a1;
            m2 = aes_ctr_enc_dec P (slice 32 48 km) (replicate 16 0) m1;
            cs = crypt_macs P (slice 0 16 km) 0 hs
        in (a2, m2, take 20 (hmac_sha512 P (slice 0 16 km) (concat cs @ a2 @ m2)) # cs))"

text \<open>The message the client builds from padded plaintexts.\<close>

definition client_msg :: "'p prims \<Rightarrow> int \<Rightarrow> 'p list \<Rightarrow> bytes \<Rightarrow> bytes \<Rightarrow> 'p NHopMixMessage" where
  "client_msg P x pks ap mp =
     (case onion P (key_chain P x pks) (ap, mp) of (a, m, hs) \<Rightarrow>
        \<lparr>ec_public_key = pt_mul P x (generator P), hmacs = hs, address = a, message = m\<rparr>)"

text \<open>The plaintext that \<open>pack\<close> builds: length prefix, content, null padding.\<close>

definition padded :: "nat \<Rightarrow> bytes \<Rightarrow> bytes" where
  "padded fld s =
     [word_of_nat (length s div 256), word_of_nat (length s mod 256)]
     @ s @ replicate (fld - length s) 0"

section \<open>Lemmas\<close>

subsection \<open>Packing and the one-hop loop\<close>

lemma toy_prims_ok: "prims_ok toy_prims"
proof -
  have a: "\<And>a b (p :: int option). map_option (\<lambda>x. a * x) (map_option (\<lambda>x. b * x) p) = map_option (\<lambda>x. (a * b) * x) p"
    by (case_tac p) (simp_all add: mult.assoc)
  have x: "\<And>(c :: byte) d. map (\<lambda>b. b XOR c) (map (\<lambda>b. b XOR c) d) = d"
    by (simp add: comp_def xor.assoc)
  show ?thesis
    unfolding prims_ok_def toy_prims_def by (simp add: a x del: map_map)
qed

lemma pack_unpack_H_s:
  assumes "length s \<le> fld" and "fld < 65536"
  shows "pack_H_s fld (length s) s = Inr ([word_of_nat (length s div 256), word_of_nat (length s mod 256)] @ s @ replicate (fld - length s) 0)"
  using assms by (simp add: pack_H_s_def)

lemma unpack_padded:
  assumes "length s \<le> fld" and "fld < 65536"
  shows "unpack_H_s fld ([word_of_nat (length s div 256), word_of_nat (length s mod 256)] @ s @ replicate (fld - length s) 0)
     = Inr (length s, s @ replicate (fld - length s) 0)"
proof -
  have "length s < 65536" using assms by simp
  then have "length s div 256 < 256" by simp
  then have "unat (word_of_nat (length s div 256) :: byte) = length s div 256"
    by (simp add: unat_of_nat)
  moreover have "unat (word_of_nat (length s mod 256) :: byte) = length s mod 256"
    by (simp add: unat_of_nat)
  ultimately show ?thesis using assms by (simp add: unpack_H_s_def)
qed

lemma one_hop_loop_append:
  "one_hop_loop P r (xs @ ys) q =
     (case one_hop_loop P r xs q of Inl e \<Rightarrow> Inl e | Inr q' \<Rightarrow> one_hop_loop P r ys q')"
  by (induction xs arbitrary: q) (auto split: sum.splits)

lemma one_hop_loop_ok:
  "\<forall>m \<in> set ms. \<exists>y. one_hop_decode P r m = Inr y \<Longrightarrow>
   one_hop_loop P r ms q = Inr (q @ map (\<lambda>m. projr (one_hop_decode P r m)) ms)"
  by (induction ms arbitrary: q) (auto split: sum.splits)

lemma one_hop_loop_fail:
  "\<forall>m \<in> set good. \<exists>y. one_hop_decode P r m = Inr y \<Longrightarrow> one_hop_decode P r bad = Inl e \<Longrightarrow>
   one_hop_loop P r (good @ bad # rest) q = Inl e"
  by (simp add: one_hop_loop_append one_hop_loop_ok)

subsection \<open>The library assumptions, one by one\<close>

lemma prims_ok_mul: "prims_ok P \<Longrightarrow> pt_mul P a (pt_mul P b p) = pt_mul P (a * b) p"
  by (simp add: prims_ok_def)

lemma prims_ok_point: "prims_ok P \<Longrightarrow> check_point P (pt_mul P a (generator P))"
  by (simp add: prims_ok_def)

lemma prims_ok_hmac_len: "prims_ok P \<Longrightarrow> length (hmac_sha512 P k d) = 64"
  by (simp add: prims_ok_def)

lemma prims_ok_aes_len: "prims_ok P \<Longrightarrow> length (aes_ctr_enc_dec P k iv d) = length d"
  by (simp add: prims_ok_def aes_ctr_enc_dec_def)

lemma prims_ok_aes_inv: "prims_ok P \<Longrightarrow> aes_ctr_enc_dec P k iv (aes_ctr_enc_dec P k iv d) = d"
  by (simp add: prims_ok_def aes_ctr_enc_dec_def)

lemma prims_ok_shared:
  "prims_ok P \<Longrightarrow> pt_mul P r (pt_mul P x (generator P)) = pt_mul P x (pt_mul P r (generator P))"
  by (simp add: prims_ok_mul mult.commute)

lemma length_padded: "length s \<le> fld \<Longrightarrow> length (padded fld s) = 2 + fld"
  by (simp add: padded_def)

lemma pack_padded: "length s \<le> fld \<Longrightarrow> fld < 65536 \<Longrightarrow> pack_H_s fld (length s) s = Inr (padded fld s)"
  by (simp add: pack_unpack_H_s padded_def)

lemma unpack_padded': "length s \<le> fld \<Longrightarrow> fld < 65536 \<Longrightarrow> unpack_H_s fld (padded fld s) = Inr (length s, s @ replicate (fld - length s) 0)"
  unfolding padded_def by (rule unpack_padded)

lemma one_hop_client_eq:
  assumes "prims_ok P" "length addr \<le> 256" "length msg \<le> 1000"
  shows "mix_client_one_hop P x (pt_mul P r (generator P)) addr msg =
    Inr (let km = sha512 P (export P (pt_mul P x (pt_mul P r (generator P))));
             a = aes_ctr_enc_dec P (slice 16 32 km) (replicate 16 0) (padded 256 addr);
             m = aes_ctr_enc_dec P (slice 32 48 km) (replicate 16 0) (padded 1000 msg)
         in \<lparr>oh_ec_public_key = pt_mul P x (generator P),
             oh_hmac = take 20 (hmac_sha512 P (slice 0 16 km) (a @ m)),
             oh_address = a, oh_message = m\<rparr>)"
  using assms by (simp add: mix_client_one_hop_def prims_ok_point pack_padded Let_def)

lemma one_hop_roundtrip:
  assumes ok: "prims_ok P" and la: "length addr \<le> 256" and lm: "length msg \<le> 1000"
    and c: "mix_client_one_hop P x (pt_mul P r (generator P)) addr msg = Inr m"
  shows "one_hop_decode P r m = Inr (addr, msg)"
proof -
  note c [unfolded one_hop_client_eq [OF ok la lm], simplified]
  then have m: "m = (let km = sha512 P (export P (pt_mul P x (pt_mul P r (generator P))));
             a = aes_ctr_enc_dec P (slice 16 32 km) (replicate 16 0) (padded 256 addr);
             m = aes_ctr_enc_dec P (slice 32 48 km) (replicate 16 0) (padded 1000 msg)
         in \<lparr>oh_ec_public_key = pt_mul P x (generator P),
             oh_hmac = take 20 (hmac_sha512 P (slice 0 16 km) (a @ m)),
             oh_address = a, oh_message = m\<rparr>)" by simp
  show ?thesis
    unfolding m one_hop_decode_def Let_def
    using la lm
    by (simp add: prims_ok_point [OF ok] prims_ok_hmac_len [OF ok] prims_ok_aes_len [OF ok]
        prims_ok_aes_inv [OF ok] prims_ok_shared [OF ok] length_padded secure_compare_def
        unpack_padded')
qed

subsection \<open>The loops of the n-hop client and server\<close>

lemma pack_H14s_ok: "j < 65536 \<Longrightarrow> \<exists>iv. pack_H14s j s = Inr iv"
  by (simp add: pack_H14s_def)

lemma crypt_macs_Nil [simp]: "crypt_macs P hk k [] = []"
  by (simp add: crypt_macs_def)

lemma crypt_macs_Cons:
  "crypt_macs P hk k (m # ms) =
     aes_ctr_enc_dec P hk (projr (pack_H14s k (replicate 14 0))) m # crypt_macs P hk (Suc k) ms"
  by (simp add: crypt_macs_def)

lemma length_crypt_macs [simp]: "length (crypt_macs P hk k ms) = length ms"
  by (simp add: crypt_macs_def)

lemma crypt_macs_inv:
  "prims_ok P \<Longrightarrow> crypt_macs P hk k (crypt_macs P hk k ms) = ms"
  by (induction ms arbitrary: k) (simp_all add: crypt_macs_Cons prims_ok_aes_inv)

lemma crypt_macs_lengths:
  "prims_ok P \<Longrightarrow> map length (crypt_macs P hk k ms) = map length ms"
  by (induction ms arbitrary: k) (simp_all add: crypt_macs_Cons prims_ok_aes_len)

lemma decrypt_hmacs_eq:
  "k + length ms \<le> 65536 \<Longrightarrow>
   decrypt_hmacs P hk (enumerate k ms) acc = Inr (acc @ crypt_macs P hk k ms)"
proof (induction ms arbitrary: k acc)
  case Nil
  then show ?case by simp
next
  case (Cons m ms)
  then have "k < 65536" by simp
  then obtain iv where iv: "pack_H14s k (replicate 14 0) = Inr iv"
    using pack_H14s_ok by blast
  from Cons.prems have "Suc k + length ms \<le> 65536" by simp
  from Cons.IH [OF this] iv show ?case
    by (simp add: crypt_macs_Cons)
qed

lemma encrypt_hmacs_eq:
  "length done = k \<Longrightarrow> k + length todo \<le> 65536 \<Longrightarrow>
   encrypt_hmacs P hk (enumerate k todo) (h, done @ todo) =
     Inr (h @ concat (crypt_macs P hk k todo), done @ crypt_macs P hk k todo)"
proof (induction todo arbitrary: k h "done")
  case Nil
  then show ?case by simp
next
  case (Cons m ms)
  then have "k < 65536" by simp
  then obtain iv where iv: "pack_H14s k (replicate 14 0) = Inr iv"
    using pack_H14s_ok by blast
  have pop: "list_pop k (done @ m # ms) = Inr (done @ ms)"
    using Cons.prems(1) by (simp add: list_pop_def)
  have ins: "list_insert k c (done @ ms) = (done @ [c]) @ ms" for c
    using Cons.prems(1) by (simp add: list_insert_def)
  have "length (done @ [c]) = Suc k" for c using Cons.prems(1) by simp
  moreover have "Suc k + length ms \<le> 65536" using Cons.prems(2) by simp
  ultimately have IH: "encrypt_hmacs P hk (enumerate (Suc k) ms) (h', (done @ [c]) @ ms) =
     Inr (h' @ concat (crypt_macs P hk (Suc k) ms), (done @ [c]) @ crypt_macs P hk (Suc k) ms)" for c h'
    by (rule Cons.IH)
  show ?case
    by (simp add: iv pop ins IH crypt_macs_Cons Let_def del: append_assoc)
qed

lemma client_layer_eq:
  assumes "length hs \<le> 65536"
  shows "client_layer P n (i, km) (a, m, hs, length hs) =
    ([PrintInt (int n - int i - 1)],
     Inr (let a2 = aes_ctr_enc_dec P (slice 16 32 km) (replicate 16 0) a;
              m2 = aes_ctr_enc_dec P (slice 32 48 km) (replicate 16 0) m;
              cs = crypt_macs P (slice 0 16 km) 0 hs
          in (a2, m2, take 20 (hmac_sha512 P (slice 0 16 km) (concat cs @ a2 @ m2)) # cs,
              Suc (length hs))))"
proof -
  have "encrypt_hmacs P (slice 0 16 km) (enumerate 0 hs) ([], [] @ hs) =
     Inr ([] @ concat (crypt_macs P (slice 0 16 km) 0 hs), [] @ crypt_macs P (slice 0 16 km) 0 hs)"
    by (rule encrypt_hmacs_eq) (use assms in simp_all)
  then show ?thesis
    by (simp add: client_layer_def Let_def list_insert_def)
qed

lemma client_layers_append:
  "client_layers P n (xs @ ys) (out, st) =
     (case client_layers P n xs (out, st) of
        (out', Inl e) \<Rightarrow> (out', Inl e)
      | (out', Inr st') \<Rightarrow> client_layers P n ys (out', st'))"
  by (induction xs arbitrary: out st) (auto split: prod.splits sum.splits)

lemma length_onion: "length (snd (snd (onion P kms (a, m)))) = length kms"
  by (induction kms) (auto simp: Let_def split: prod.splits)

lemma client_layers_eq:
  "length kms \<le> 65537 \<Longrightarrow>
   snd (client_layers P n (rev (enumerate k kms)) (out, (a, m, [], 0))) =
     Inr (case onion P kms (a, m) of (a', m', hs) \<Rightarrow> (a', m', hs, length kms))"
proof (induction kms arbitrary: k out)
  case Nil
  then show ?case by simp
next
  case (Cons km kms)
  then have len: "length kms \<le> 65536" by simp
  obtain a' m' hs where on: "onion P kms (a, m) = (a', m', hs)"
    by (cases "onion P kms (a, m)") auto
  have lhs: "length hs = length kms"
    using length_onion [of P kms a m] on by simp
  from Cons.IH [of "Suc k" out] len on
  obtain out' where r: "client_layers P n (rev (enumerate (Suc k) kms)) (out, (a, m, [], 0)) =
     (out', Inr (a', m', hs, length kms))"
    by (cases "client_layers P n (rev (enumerate (Suc k) kms)) (out, (a, m, [], 0))") auto
  have cl: "client_layer P n (k, km) (a', m', hs, length kms) = 
    ([PrintInt (int n - int k - 1)],
     Inr (let a2 = aes_ctr_enc_dec P (slice 16 32 km) (replicate 16 0) a';
              m2 = aes_ctr_enc_dec P (slice 32 48 km) (replicate 16 0) m';
              cs = crypt_macs P (slice 0 16 km) 0 hs
          in (a2, m2, take 20 (hmac_sha512 P (slice 0 16 km) (concat cs @ a2 @ m2)) # cs,
              Suc (length hs))))"
    using client_layer_eq [of hs P n k km a' m'] len lhs by simp
  show ?case
    by (simp add: client_layers_append r cl on lhs Let_def)
qed

lemma derive_keys_eq:
  "length privs = Suc i \<Longrightarrow>
   derive_keys P i pks (kms, privs) =
     (kms @ key_chain P (privs ! i) pks, privs @ priv_chain P (privs ! i) pks)"
proof (induction pks arbitrary: i kms privs)
  case Nil
  then show ?case by simp
next
  case (Cons pk pks)
  let ?km = "sha512 P (export P (pt_mul P (privs ! i) pk))"
  let ?x' = "bn_from_binary (drop 48 ?km) * privs ! i"
  have "length (privs @ [?x']) = Suc (Suc i)" using Cons.prems by simp
  from Cons.IH [OF this, of "kms @ [?km]"] Cons.prems
  show ?case by (simp add: Let_def nth_append)
qed

lemma length_key_chain [simp]: "length (key_chain P x pks) = length pks"
  by (induction pks arbitrary: x) (simp_all add: Let_def)

lemma length_priv_chain [simp]: "length (priv_chain P x pks) = length pks"
  by (induction pks arbitrary: x) (simp_all add: Let_def)

lemma mix_client_n_hop_eq:
  assumes "length addr \<le> 256" "length msg \<le> 1000" "length pks \<le> 65537"
  shows "snd (mix_client_n_hop P x pks addr msg) =
           Inr (client_msg P x pks (padded 256 addr) (padded 1000 msg))"
proof -
  have dk: "fst (derive_keys P 0 pks ([], [x])) = key_chain P x pks"
    by (simp add: derive_keys_eq)
  have "snd (client_layers P (length pks) (rev (enumerate 0 (key_chain P x pks)))
          ([], (padded 256 addr, padded 1000 msg, [], 0))) =
        Inr (case onion P (key_chain P x pks) (padded 256 addr, padded 1000 msg) of
               (a', m', hs) \<Rightarrow> (a', m', hs, length (key_chain P x pks)))"
    by (rule client_layers_eq) (use assms in simp)
  then show ?thesis
    using assms
    by (auto simp add: mix_client_n_hop_def pack_padded dk Let_def client_msg_def
        split: prod.splits sum.splits)
qed

lemma onion_lengths:
  assumes "prims_ok P" "onion P kms (a, m) = (a', m', hs)"
  shows "length a' = length a \<and> length m' = length m \<and> (\<forall>h \<in> set hs. length h = 20)"
  using assms(2)
proof (induction kms arbitrary: a' m' hs)
  case Nil
  then show ?case by simp
next
  case (Cons km kms)
  obtain a1 m1 hs1 where on: "onion P kms (a, m) = (a1, m1, hs1)"
    by (cases "onion P kms (a, m)") auto
  from Cons.IH [OF on]
  have l: "length a1 = length a" "length m1 = length m" "\<forall>h \<in> set hs1. length h = 20" by auto
  have "map length (crypt_macs P (slice 0 16 km) 0 hs1) = map length hs1"
    by (rule crypt_macs_lengths [OF assms(1)])
  then have "length ` set (crypt_macs P (slice 0 16 km) 0 hs1) = length ` set hs1"
    by (metis list.set_map)
  with l(3) have c: "\<forall>h \<in> set (crypt_macs P (slice 0 16 km) 0 hs1). length h = 20"
    by (metis imageE imageI)
  from Cons.prems show ?case
    using l c by (auto simp add: on Let_def prims_ok_aes_len [OF assms(1)] prims_ok_hmac_len [OF assms(1)])
qed

lemma client_msg_Cons:
  "client_msg P x (pk # pks) ap mp =
     (let km = sha512 P (export P (pt_mul P x pk));
          nxt = client_msg P (bn_from_binary (drop 48 km) * x) pks ap mp;
          a2 = aes_ctr_enc_dec P (slice 16 32 km) (replicate 16 0) (address nxt);
          m2 = aes_ctr_enc_dec P (slice 32 48 km) (replicate 16 0) (message nxt);
          cs = crypt_macs P (slice 0 16 km) 0 (hmacs nxt)
      in \<lparr>ec_public_key = pt_mul P x (generator P),
          hmacs = take 20 (hmac_sha512 P (slice 0 16 km) (concat cs @ a2 @ m2)) # cs,
          address = a2, message = m2\<rparr>)"
  by (simp add: client_msg_def Let_def split: prod.splits)

lemma client_msg_Nil:
  "client_msg P x [] ap mp = \<lparr>ec_public_key = pt_mul P x (generator P), hmacs = [], address = ap, message = mp\<rparr>"
  by (simp add: client_msg_def)

lemma client_msg_lengths:
  assumes "prims_ok P"
  shows "length (address (client_msg P x pks ap mp)) = length ap"
    and "length (message (client_msg P x pks ap mp)) = length mp"
    and "length (hmacs (client_msg P x pks ap mp)) = length pks"
    and "\<forall>h \<in> set (hmacs (client_msg P x pks ap mp)). length h = 20"
proof -
  obtain a' m' hs where on: "onion P (key_chain P x pks) (ap, mp) = (a', m', hs)"
    by (cases "onion P (key_chain P x pks) (ap, mp)") auto
  from onion_lengths [OF assms on] length_onion [of P "key_chain P x pks" ap mp] on
  show "length (address (client_msg P x pks ap mp)) = length ap"
    and "length (message (client_msg P x pks ap mp)) = length mp"
    and "length (hmacs (client_msg P x pks ap mp)) = length pks"
    and "\<forall>h \<in> set (hmacs (client_msg P x pks ap mp)). length h = 20"
    by (simp_all add: client_msg_def)
qed

lemma client_msg_pk [simp]: "ec_public_key (client_msg P x pks ap mp) = pt_mul P x (generator P)"
  by (simp add: client_msg_def split: prod.splits)

text \<open>One relay step on a message built by the client.\<close>

lemma n_hop_decode_client:
  fixes P :: "'p prims" and x r :: int and pks :: "'p list" and ap mp :: bytes
  assumes ok: "prims_ok P" and la: "length ap = 258" and lm: "length mp = 1002"
    and n: "length pks \<le> 65536"
  defines "km \<equiv> sha512 P (export P (pt_mul P x (pt_mul P r (generator P))))"
  defines "nxt \<equiv> client_msg P (bn_from_binary (drop 48 km) * x) pks ap mp"
  shows "snd (n_hop_decode P r final (client_msg P x (pt_mul P r (generator P) # pks) ap mp)) =
     (if final
      then (case unpack_H_s 256 (address nxt) of Inl e \<Rightarrow> Inl e
            | Inr (address_len, address_full) \<Rightarrow>
             (case unpack_H_s 1000 (message nxt) of Inl e \<Rightarrow> Inl e
              | Inr (message_len, message_full) \<Rightarrow>
                 Inr (Delivered (take address_len address_full, take message_len message_full))))
      else Inr (Forwarded nxt))"
proof -
  let ?m = "client_msg P x (pt_mul P r (generator P) # pks) ap mp"
  let ?cs = "crypt_macs P (slice 0 16 km) 0 (hmacs nxt)"
  let ?a2 = "aes_ctr_enc_dec P (slice 16 32 km) (replicate 16 0) (address nxt)"
  let ?m2 = "aes_ctr_enc_dec P (slice 32 48 km) (replicate 16 0) (message nxt)"
  have m: "?m = \<lparr>ec_public_key = pt_mul P x (generator P),
          hmacs = take 20 (hmac_sha512 P (slice 0 16 km) (concat ?cs @ ?a2 @ ?m2)) # ?cs,
          address = ?a2, message = ?m2\<rparr>"
    by (simp add: client_msg_Cons km_def nxt_def Let_def)
  have sh: "pt_mul P r (pt_mul P x (generator P)) = pt_mul P x (pt_mul P r (generator P))"
    by (rule prims_ok_shared [OF ok])
  have ln: "length (hmacs nxt) = length pks" 
    unfolding nxt_def by (rule client_msg_lengths(3) [OF ok])
  have dec: "decrypt_hmacs P (slice 0 16 km) (enumerate 0 ?cs) [] = Inr ([] @ crypt_macs P (slice 0 16 km) 0 ?cs)"
    by (rule decrypt_hmacs_eq) (use n ln in simp)
  have dec': "decrypt_hmacs P (slice 0 16 km) (enumerate 0 ?cs) [] = Inr (hmacs nxt)"
    using dec by (simp add: crypt_macs_inv [OF ok])
  have la2: "length ?a2 = 258"
    using la by (simp add: prims_ok_aes_len [OF ok] nxt_def client_msg_lengths(1) [OF ok])
  have lm2: "length ?m2 = 1002"
    using lm by (simp add: prims_ok_aes_len [OF ok] nxt_def client_msg_lengths(2) [OF ok])
  have pk: "pt_mul P (bn_from_binary (drop 48 km)) (pt_mul P x (generator P)) = ec_public_key nxt"
    by (simp add: nxt_def prims_ok_mul [OF ok])
  have nx: "\<lparr>ec_public_key = ec_public_key nxt, hmacs = hmacs nxt, address = address nxt, message = message nxt\<rparr> = nxt"
    by simp
  show ?thesis
    unfolding m n_hop_decode_def
    by (simp add: prims_ok_point [OF ok] prims_ok_hmac_len [OF ok] sh km_def [symmetric] Let_def
        secure_compare_def dec' la2 lm2 prims_ok_aes_inv [OF ok] pk nx
        split: sum.splits prod.splits)
qed

subsection \<open>Batches and cascades\<close>

lemma n_hop_loop_snd:
  "snd (n_hop_loop P r f ms (out, q)) =
     (case ms of [] \<Rightarrow> Inr q
      | m # rest \<Rightarrow> (case snd (n_hop_decode P r f m) of
           Inl e \<Rightarrow> Inl e
         | Inr y \<Rightarrow> snd (n_hop_loop P r f rest (out', q @ [y]))))"
proof (cases ms)
  case Nil
  then show ?thesis by simp
next
  case (Cons m rest)
  have ind: "snd (n_hop_loop P r f xs (o1, q')) = snd (n_hop_loop P r f xs (o2, q'))" for xs o1 o2 q'
    by (induction xs arbitrary: o1 o2 q') (auto split: prod.splits sum.splits)
  show ?thesis
    using Cons ind [of rest _ "q @ [_]" out']
    by (auto split: prod.splits sum.splits)
qed

lemma n_hop_loop_ok:
  "\<forall>m \<in> set ms. \<exists>y. snd (n_hop_decode P r f m) = Inr y \<Longrightarrow>
   snd (n_hop_loop P r f ms (out, q)) = Inr (q @ map (\<lambda>m. projr (snd (n_hop_decode P r f m))) ms)"
proof (induction ms arbitrary: out q)
  case Nil
  then show ?case by simp
next
  case (Cons m ms)
  then obtain y where y: "snd (n_hop_decode P r f m) = Inr y" by auto
  from Cons.prems have rest: "\<forall>m \<in> set ms. \<exists>y. snd (n_hop_decode P r f m) = Inr y" by simp
  show ?case
    by (subst n_hop_loop_snd [where out' = out]) (simp add: y Cons.IH [OF rest])
qed

lemma n_hop_loop_fail:
  "\<forall>m \<in> set good. \<exists>y. snd (n_hop_decode P r f m) = Inr y \<Longrightarrow>
   snd (n_hop_decode P r f bad) = Inl e \<Longrightarrow>
   snd (n_hop_loop P r f (good @ bad # rest) (out, q)) = Inl e"
proof (induction good arbitrary: out q)
  case Nil
  then show ?case by (subst n_hop_loop_snd [where out' = out]) simp
next
  case (Cons m ms)
  then obtain y where y: "snd (n_hop_decode P r f m) = Inr y" by auto
  from Cons.prems have rest: "\<forall>m \<in> set ms. \<exists>y. snd (n_hop_decode P r f m) = Inr y" by simp
  show ?case
    by (subst n_hop_loop_snd [where out' = out]) (simp add: y Cons.IH [OF rest Cons.prems(2)])
qed

lemma mix_server_n_hop_ok:
  "\<forall>m \<in> set ms. \<exists>y. snd (n_hop_decode P r f m) = Inr y \<Longrightarrow>
   snd (mix_server_n_hop P r ms f) = Inr (map (\<lambda>m. projr (snd (n_hop_decode P r f m))) ms)"
  by (simp add: mix_server_n_hop_def n_hop_loop_ok)

lemma mix_server_n_hop_single:
  "snd (n_hop_decode P r f m) = Inr y \<Longrightarrow> snd (mix_server_n_hop P r [m] f) = Inr [y]"
  by (simp add: mix_server_n_hop_ok)

lemma mix_server_one_hop_ok:
  "\<forall>m \<in> set ms. \<exists>y. one_hop_decode P r m = Inr y \<Longrightarrow>
   mix_server_one_hop P r ms = Inr (sort (map (\<lambda>m. projr (one_hop_decode P r m)) ms))"
  by (simp add: mix_server_one_hop_def one_hop_loop_ok)

lemma priv_chain_nth:
  "i < length pks \<Longrightarrow>
   key_chain P x pks ! i =
     sha512 P (export P (pt_mul P ((x # priv_chain P x pks) ! i) (pks ! i))) \<and>
   (x # priv_chain P x pks) ! Suc i =
     bn_from_binary (drop 48 (key_chain P x pks ! i)) * (x # priv_chain P x pks) ! i"
proof (induction pks arbitrary: x i)
  case Nil
  then show ?case by simp
next
  case (Cons pk pks)
  show ?case
  proof (cases i)
    case 0
    then show ?thesis by (simp add: Let_def)
  next
    case (Suc j)
    with Cons.prems have "j < length pks" by simp
    from Cons.IH [OF this] Suc show ?thesis by (simp add: Let_def)
  qed
qed

lemma forward_cascade_client:
  assumes ok: "prims_ok P" and la: "length ap = 258" and lm: "length mp = 1002"
  shows "length (rs @ rs') \<le> 65537 \<Longrightarrow>
    forward_cascade P rs [client_msg P x (map (\<lambda>r. pt_mul P r (generator P)) (rs @ rs')) ap mp] =
      Inr [client_msg P
             ((x # priv_chain P x (map (\<lambda>r. pt_mul P r (generator P)) (rs @ rs'))) ! length rs)
             (map (\<lambda>r. pt_mul P r (generator P)) rs') ap mp]"
proof (induction rs arbitrary: x)
  case Nil
  then show ?case by simp
next
  case (Cons r rs)
  let ?pub = "\<lambda>r. pt_mul P r (generator P)"
  let ?km = "sha512 P (export P (pt_mul P x (?pub r)))"
  let ?x' = "bn_from_binary (drop 48 ?km) * x"
  from Cons.prems have n: "length (map ?pub (rs @ rs')) \<le> 65536" by simp
  have step: "snd (n_hop_decode P r False (client_msg P x (?pub r # map ?pub (rs @ rs')) ap mp)) =
      Inr (Forwarded (client_msg P ?x' (map ?pub (rs @ rs')) ap mp))"
    using n_hop_decode_client [OF ok la lm n, of r False x] by simp
  have srv: "snd (mix_server_n_hop P r [client_msg P x (?pub r # map ?pub (rs @ rs')) ap mp] False) =
      Inr [Forwarded (client_msg P ?x' (map ?pub (rs @ rs')) ap mp)]"
    by (rule mix_server_n_hop_single [OF step])
  from Cons.prems have "length (rs @ rs') \<le> 65537" by simp
  from Cons.IH [OF this, of ?x'] srv show ?case
    by (simp add: forwarded_messages_def Let_def)
qed

lemma final_decode_client:
  assumes ok: "prims_ok P" and la: "length addr \<le> 256" and lm: "length msg \<le> 1000"
  shows "snd (n_hop_decode P r True
            (client_msg P x [pt_mul P r (generator P)] (padded 256 addr) (padded 1000 msg))) =
         Inr (Delivered (addr, msg))"
proof -
  have "snd (n_hop_decode P r True
            (client_msg P x (pt_mul P r (generator P) # []) (padded 256 addr) (padded 1000 msg))) =
        Inr (Delivered (addr, msg))"
    by (subst n_hop_decode_client [OF ok])
      (use la lm in \<open>simp_all add: length_padded client_msg_Nil unpack_padded'\<close>)
  then show ?thesis by simp
qed

section \<open>The claims\<close>

text \<open>
  C1 (round trip).  For every address of at most 256 bytes, every message of at most 1000
  bytes and every cascade of relay key pairs (one to 65537 of them: beyond that the
  position of a MAC no longer fits the 16-bit field of its vector), what the client
  encodes is decoded to exactly the address and the message: by \<open>mix_server_one_hop\<close>
  after \<open>mix_client_one_hop\<close>, and by the relays in cascade order, the last one final,
  after \<open>mix_client_n_hop\<close>.
\<close>

theorem roundtrip:
  assumes ok: "prims_ok P" and la: "length addr \<le> 256" and lm: "length msg \<le> 1000"
    and ne: "rs \<noteq> []" and n: "length rs \<le> 65537"
  shows "(\<exists>m. mix_client_one_hop P x (pt_mul P r (generator P)) addr msg = Inr m \<and>
              mix_server_one_hop P r [m] = Inr [(addr, msg)]) \<and>
         (\<exists>m. snd (mix_client_n_hop P x (map (\<lambda>r. pt_mul P r (generator P)) rs) addr msg) = Inr m \<and>
              cascade P rs [m] = Inr [Delivered (addr, msg)])"
proof
  obtain m where m: "mix_client_one_hop P x (pt_mul P r (generator P)) addr msg = Inr m"
    using one_hop_client_eq [OF ok la lm] by blast
  have "one_hop_decode P r m = Inr (addr, msg)"
    by (rule one_hop_roundtrip [OF ok la lm m])
  then have "mix_server_one_hop P r [m] = Inr [(addr, msg)]"
    by (simp add: mix_server_one_hop_ok)
  with m show "\<exists>m. mix_client_one_hop P x (pt_mul P r (generator P)) addr msg = Inr m \<and>
              mix_server_one_hop P r [m] = Inr [(addr, msg)]" by blast
next
  let ?pub = "\<lambda>r. pt_mul P r (generator P)"
  let ?ap = "padded 256 addr" and ?mp = "padded 1000 msg"
  let ?m = "client_msg P x (map ?pub rs) ?ap ?mp"
  have c: "snd (mix_client_n_hop P x (map ?pub rs) addr msg) = Inr ?m"
    by (rule mix_client_n_hop_eq) (use la lm n in simp_all)
  have split: "rs = butlast rs @ [last rs]" using ne by simp
  have lap: "length ?ap = 258" and lmp: "length ?mp = 1002"
    using la lm by (simp_all add: length_padded)
  have "length (butlast rs @ [last rs]) \<le> 65537" using n split by simp
  from forward_cascade_client [OF ok lap lmp this, of x]
  obtain x' where fwd: "forward_cascade P (butlast rs) [?m] =
      Inr [client_msg P x' [?pub (last rs)] ?ap ?mp]"
    using split by auto
  have "snd (mix_server_n_hop P (last rs) [client_msg P x' [?pub (last rs)] ?ap ?mp] True) =
      Inr [Delivered (addr, msg)]"
    by (rule mix_server_n_hop_single [OF final_decode_client [OF ok la lm]])
  with fwd have "cascade P rs [?m] = Inr [Delivered (addr, msg)]"
    by (simp add: cascade_def)
  with c show "\<exists>m. snd (mix_client_n_hop P x (map ?pub rs) addr msg) = Inr m \<and>
              cascade P rs [m] = Inr [Delivered (addr, msg)]" by blast
qed

theorem roundtrip_witness:
  "prims_ok toy_prims \<and> length [1, 2, 3 :: byte] \<le> 256 \<and> length [7, 8 :: byte] \<le> 1000 \<and>
   [3, 5, 11 :: int] \<noteq> [] \<and> length [3, 5, 11 :: int] \<le> 65537 \<and>
   (\<exists>m. mix_client_one_hop toy_prims 4 (pt_mul toy_prims 9 (generator toy_prims)) [1, 2, 3] [7, 8] = Inr m \<and>
        mix_server_one_hop toy_prims 9 [m] = Inr [([1, 2, 3], [7, 8])]) \<and>
   (\<exists>m. snd (mix_client_n_hop toy_prims 4
              (map (\<lambda>r. pt_mul toy_prims r (generator toy_prims)) [3, 5, 11]) [1, 2, 3] [7, 8]) = Inr m \<and>
        cascade toy_prims [3, 5, 11] [m] = Inr [Delivered ([1, 2, 3], [7, 8])])"
  using roundtrip [of toy_prims "[1, 2, 3]" "[7, 8]" "[3, 5, 11]" 4 9] toy_prims_ok
  by simp

text \<open>
  C2 (blinding).  At every hop \<open>i\<close> of a cascade, for the message \<open>incoming\<close> that
  reaches relay \<open>i\<close> and the message \<open>outgoing\<close> it forwards: the shared element
  of the relay (its private key times the incoming public key) is the one of the client
  at step \<open>i\<close> (\<open>private_keys[i]\<close> times the public key of relay \<open>i\<close>), so both
  derive the same key material; and the public key the relay forwards, the blinding factor
  times the incoming public key, is the generator times the next private key of the
  client, which is the blinding factor times \<open>private_keys[i]\<close>.
\<close>

theorem blinding_invariant:
  fixes P :: "'p prims" and rs :: "int list" and x :: int and i :: nat
  assumes ok: "prims_ok P" and la: "length addr \<le> 256" and lm: "length msg \<le> 1000"
    and n: "length rs \<le> 65537" and i: "i < length rs"
  defines "pubs \<equiv> map (\<lambda>r. pt_mul P r (generator P)) rs"
  defines "key_materials \<equiv> fst (derive_keys P 0 pubs ([], [x]))"
  defines "private_keys \<equiv> snd (derive_keys P 0 pubs ([], [x]))"
  defines "blinding_factor \<equiv> bn_from_binary (drop 48 (key_materials ! i))"
  shows "\<exists>m incoming outgoing.
           snd (mix_client_n_hop P x pubs addr msg) = Inr m \<and>
           forward_cascade P (take i rs) [m] = Inr [incoming] \<and>
           snd (mix_server_n_hop P (rs ! i) [incoming] False) = Inr [Forwarded outgoing] \<and>
           pt_mul P (rs ! i) (ec_public_key incoming) = pt_mul P (private_keys ! i) (pubs ! i) \<and>
           key_materials ! i = sha512 P (export P (pt_mul P (rs ! i) (ec_public_key incoming))) \<and>
           private_keys ! Suc i = blinding_factor * private_keys ! i \<and>
           ec_public_key outgoing = pt_mul P blinding_factor (ec_public_key incoming) \<and>
           ec_public_key outgoing = pt_mul P (private_keys ! Suc i) (generator P)"
proof -
  let ?pub = "\<lambda>r. pt_mul P r (generator P)"
  let ?ap = "padded 256 addr" and ?mp = "padded 1000 msg"
  let ?m = "client_msg P x pubs ?ap ?mp"
  let ?xs = "x # priv_chain P x pubs"
  have dk: "derive_keys P 0 pubs ([], [x]) = (key_chain P x pubs, ?xs)"
    by (simp add: derive_keys_eq)
  have km: "key_materials = key_chain P x pubs" and pk: "private_keys = ?xs"
    by (simp_all add: key_materials_def private_keys_def dk)
  have c: "snd (mix_client_n_hop P x pubs addr msg) = Inr ?m"
    by (rule mix_client_n_hop_eq) (use la lm n in \<open>simp_all add: pubs_def\<close>)
  have lap: "length ?ap = 258" and lmp: "length ?mp = 1002"
    using la lm by (simp_all add: length_padded)
  have split: "rs = take i rs @ drop i rs" by simp
  have d: "drop i rs = rs ! i # drop (Suc i) rs"
    using i by (simp add: Cons_nth_drop_Suc)
  let ?inc = "client_msg P (?xs ! i) (map ?pub (drop i rs)) ?ap ?mp"
  have "length (take i rs @ drop i rs) \<le> 65537" using n by simp
  from forward_cascade_client [OF ok lap lmp this, of x]
  have fwd: "forward_cascade P (take i rs) [?m] = Inr [?inc]"
    using i by (simp add: pubs_def min_def)
  let ?km = "sha512 P (export P (pt_mul P (?xs ! i) (?pub (rs ! i))))"
  let ?out = "client_msg P (bn_from_binary (drop 48 ?km) * ?xs ! i) (map ?pub (drop (Suc i) rs)) ?ap ?mp"
  have n': "length (map ?pub (drop (Suc i) rs)) \<le> 65536" using n by simp
  have "snd (n_hop_decode P (rs ! i) False
          (client_msg P (?xs ! i) (?pub (rs ! i) # map ?pub (drop (Suc i) rs)) ?ap ?mp)) =
        Inr (Forwarded ?out)"
    using n_hop_decode_client [OF ok lap lmp n', of "rs ! i" False "?xs ! i"] by simp
  then have "snd (n_hop_decode P (rs ! i) False ?inc) = Inr (Forwarded ?out)"
    by (simp add: d)
  then have srv: "snd (mix_server_n_hop P (rs ! i) [?inc] False) = Inr [Forwarded ?out]"
    by (rule mix_server_n_hop_single)
  have ip: "i < length pubs" using i by (simp add: pubs_def)
  note ch = priv_chain_nth [OF ip, of P x]
  have pi: "pubs ! i = ?pub (rs ! i)" using i by (simp add: pubs_def)
  have kmi: "key_materials ! i = ?km"
    using ch by (simp add: km pi)
  have nxt: "private_keys ! Suc i = blinding_factor * private_keys ! i"
    using ch by (simp add: pk km blinding_factor_def)
  have sh: "pt_mul P (rs ! i) (ec_public_key ?inc) = pt_mul P (private_keys ! i) (pubs ! i)"
    by (simp add: pk pi prims_ok_shared [OF ok])
  have o1: "ec_public_key ?out = pt_mul P blinding_factor (ec_public_key ?inc)"
    by (simp add: blinding_factor_def kmi prims_ok_mul [OF ok])
  have o2: "ec_public_key ?out = pt_mul P (private_keys ! Suc i) (generator P)"
    unfolding nxt by (simp add: blinding_factor_def kmi pk)
  have kmi': "key_materials ! i = sha512 P (export P (pt_mul P (rs ! i) (ec_public_key ?inc)))"
    by (simp add: kmi prims_ok_shared [OF ok])
  from c fwd srv sh kmi' nxt o1 o2 show ?thesis by blast
qed

theorem blinding_invariant_witness:
  "prims_ok toy_prims \<and> length [1, 2, 3 :: byte] \<le> 256 \<and> length [7, 8 :: byte] \<le> 1000 \<and>
   length [3, 5, 11 :: int] \<le> 65537 \<and> (1 :: nat) < length [3, 5, 11 :: int] \<and>
   (\<exists>m incoming outgoing.
      snd (mix_client_n_hop toy_prims 4
             (map (\<lambda>r. pt_mul toy_prims r (generator toy_prims)) [3, 5, 11]) [1, 2, 3] [7, 8]) = Inr m \<and>
      forward_cascade toy_prims (take 1 [3, 5, 11]) [m] = Inr [incoming] \<and>
      snd (mix_server_n_hop toy_prims ([3, 5, 11] ! 1) [incoming] False) = Inr [Forwarded outgoing] \<and>
      pt_mul toy_prims ([3, 5, 11] ! 1) (ec_public_key incoming) =
        pt_mul toy_prims
          (snd (derive_keys toy_prims 0
                  (map (\<lambda>r. pt_mul toy_prims r (generator toy_prims)) [3, 5, 11]) ([], [4])) ! 1)
          (map (\<lambda>r. pt_mul toy_prims r (generator toy_prims)) [3, 5, 11] ! 1))"
  using blinding_invariant [of toy_prims "[1, 2, 3]" "[7, 8]" "[3, 5, 11]" 1 4] toy_prims_ok
  by auto

lemma decrypt_hmacs_length:
  "decrypt_hmacs P hk ims acc = Inr xs \<Longrightarrow> length xs = length acc + length ims"
proof (induction ims arbitrary: acc)
  case Nil
  then show ?case by simp
next
  case (Cons im ims)
  obtain i m where im: "im = (i, m)" by (cases im)
  from Cons.prems obtain iv where
    "decrypt_hmacs P hk ims (acc @ [aes_ctr_enc_dec P hk iv m]) = Inr xs"
    by (auto simp: im split: sum.splits)
  from Cons.IH [OF this] show ?case by simp
qed

lemma n_hop_decode_forward_lengths:
  assumes ok: "prims_ok P" and d: "snd (n_hop_decode P r False m) = Inr y"
  shows "\<exists>m'. y = Forwarded m' \<and> Suc (length (hmacs m')) = length (hmacs m) \<and>
              length (address m') = 258 \<and> length (message m') = 1002"
proof -
  from d obtain h0 others where hm: "hmacs m = h0 # others"
    by (cases "hmacs m") (auto simp: n_hop_decode_def split: if_splits)
  from d hm have fmt: "length (address m) = 258" "length (message m) = 1002"
    by (auto simp: n_hop_decode_def split: if_splits)
  let ?km = "sha512 P (export P (pt_mul P r (ec_public_key m)))"
  from d hm fmt obtain new_hmacs where
    dec: "decrypt_hmacs P (slice 0 16 ?km) (enumerate 0 others) [] = Inr new_hmacs"
    and y: "y = Forwarded \<lparr>ec_public_key = pt_mul P (bn_from_binary (drop 48 ?km)) (ec_public_key m),
              hmacs = new_hmacs,
              address = aes_ctr_enc_dec P (slice 16 32 ?km) (replicate 16 0) (address m),
              message = aes_ctr_enc_dec P (slice 32 48 ?km) (replicate 16 0) (message m)\<rparr>"
    by (auto simp: n_hop_decode_def Let_def split: if_splits sum.splits)
  from decrypt_hmacs_length [OF dec] have "length new_hmacs = length others" by simp
  with y hm fmt show ?thesis
    by (simp add: prims_ok_aes_len [OF ok])
qed

lemma n_hop_loop_all2:
  "snd (n_hop_loop P r f ms (out, q)) = Inr outs \<Longrightarrow>
   \<exists>ys. outs = q @ ys \<and> list_all2 (\<lambda>m y. snd (n_hop_decode P r f m) = Inr y) ms ys"
proof (induction ms arbitrary: out q)
  case Nil
  then show ?case by simp
next
  case (Cons m ms)
  from Cons.prems obtain y where y: "snd (n_hop_decode P r f m) = Inr y"
    and rest: "snd (n_hop_loop P r f ms (out, q @ [y])) = Inr outs"
    by (subst (asm) n_hop_loop_snd [where out' = out]) (auto split: sum.splits)
  from Cons.IH [OF rest] obtain ys where "outs = (q @ [y]) @ ys"
    and "list_all2 (\<lambda>m y. snd (n_hop_decode P r f m) = Inr y) ms ys" by blast
  with y have "outs = q @ (y # ys) \<and> list_all2 (\<lambda>m y. snd (n_hop_decode P r f m) = Inr y) (m # ms) (y # ys)"
    by simp
  then show ?case by blast
qed

lemma mix_server_n_hop_all2:
  "snd (mix_server_n_hop P r ms f) = Inr outs \<Longrightarrow>
   list_all2 (\<lambda>m y. snd (n_hop_decode P r f m) = Inr y) ms outs"
  using n_hop_loop_all2 [of P r f ms "[]" "[]" outs] by (simp add: mix_server_n_hop_def)

text \<open>
  C7 (lengths).  A one-hop message of the client has a 20-byte MAC, a 258-byte address and
  a 1002-byte message field, \<open>point_size + 20 + 258 + 1002\<close> bytes with its exported
  point.  An n-hop message of the client has as many MACs as public keys, of 20 bytes
  each, and fields of 258 and 1002 bytes.  Every message a relay forwards has one MAC less
  than the message it came from, and fields of 258 and 1002 bytes.  After \<open>k\<close> relays
  of a cascade of \<open>N\<close>, the message has \<open>N - k\<close> MACs.
\<close>

theorem length_invariants:
  fixes P :: "'p prims"
  assumes ok: "prims_ok P" and la: "length addr \<le> 256" and lm: "length msg \<le> 1000"
    and ps: "\<forall>a. length (export P (pt_mul P a (generator P))) = point_size"
  shows "(\<forall>pk m. mix_client_one_hop P x pk addr msg = Inr m \<longrightarrow>
            length (oh_hmac m) = 20 \<and> length (oh_address m) = 258 \<and> length (oh_message m) = 1002 \<and>
            length (export P (oh_ec_public_key m)) + length (oh_hmac m) + length (oh_address m)
              + length (oh_message m) = point_size + 20 + 258 + 1002) \<and>
         (\<forall>pks. length pks \<le> 65537 \<longrightarrow>
            (\<exists>m. snd (mix_client_n_hop P x pks addr msg) = Inr m \<and>
                 length (hmacs m) = length pks \<and> (\<forall>h \<in> set (hmacs m). length h = 20) \<and>
                 length (address m) = 258 \<and> length (message m) = 1002)) \<and>
         (\<forall>r msgs outs. snd (mix_server_n_hop P r msgs False) = Inr outs \<longrightarrow>
            list_all2 (\<lambda>m out. \<exists>m'. out = Forwarded m' \<and>
                         Suc (length (hmacs m')) = length (hmacs m) \<and>
                         length (address m') = 258 \<and> length (message m') = 1002) msgs outs) \<and>
         (\<forall>rs k. length rs \<le> 65537 \<and> k \<le> length rs \<longrightarrow>
            (\<exists>m mk. snd (mix_client_n_hop P x (map (\<lambda>r. pt_mul P r (generator P)) rs) addr msg) = Inr m \<and>
                 forward_cascade P (take k rs) [m] = Inr [mk] \<and>
                 length (hmacs mk) = length rs - k \<and>
                 length (address mk) = 258 \<and> length (message mk) = 1002))"
proof (intro conjI allI impI)
  fix pk m
  assume c: "mix_client_one_hop P x pk addr msg = Inr m"
  then have m: "length (oh_hmac m) = 20" "length (oh_address m) = 258" "length (oh_message m) = 1002"
    "oh_ec_public_key m = pt_mul P x (generator P)"
    using la lm
    by (auto simp: mix_client_one_hop_def pack_padded Let_def length_padded
        prims_ok_aes_len [OF ok] prims_ok_hmac_len [OF ok] split: if_splits)
  from m show "length (oh_hmac m) = 20" "length (oh_address m) = 258" "length (oh_message m) = 1002"
    by simp_all
  from m ps show "length (export P (oh_ec_public_key m)) + length (oh_hmac m) + length (oh_address m)
              + length (oh_message m) = point_size + 20 + 258 + 1002" by simp
next
  fix pks :: "'p list"
  assume n: "length pks \<le> 65537"
  let ?m = "client_msg P x pks (padded 256 addr) (padded 1000 msg)"
  have "snd (mix_client_n_hop P x pks addr msg) = Inr ?m"
    by (rule mix_client_n_hop_eq [OF la lm n])
  moreover have "length (hmacs ?m) = length pks" "\<forall>h \<in> set (hmacs ?m). length h = 20"
    "length (address ?m) = 258" "length (message ?m) = 1002"
    using client_msg_lengths [OF ok, of x pks "padded 256 addr" "padded 1000 msg"] la lm
    by (simp_all add: length_padded)
  ultimately show "\<exists>m. snd (mix_client_n_hop P x pks addr msg) = Inr m \<and>
                 length (hmacs m) = length pks \<and> (\<forall>h \<in> set (hmacs m). length h = 20) \<and>
                 length (address m) = 258 \<and> length (message m) = 1002" by blast
next
  fix r msgs outs
  assume "snd (mix_server_n_hop P r msgs False) = Inr outs"
  then have "list_all2 (\<lambda>m y. snd (n_hop_decode P r False m) = Inr y) msgs outs"
    by (rule mix_server_n_hop_all2)
  then show "list_all2 (\<lambda>m out. \<exists>m'. out = Forwarded m' \<and>
                         Suc (length (hmacs m')) = length (hmacs m) \<and>
                         length (address m') = 258 \<and> length (message m') = 1002) msgs outs"
    by (rule list_all2_mono) (rule n_hop_decode_forward_lengths [OF ok])
next
  fix rs :: "int list" and k
  assume a: "length rs \<le> 65537 \<and> k \<le> length rs"
  let ?pub = "\<lambda>r. pt_mul P r (generator P)"
  let ?ap = "padded 256 addr" and ?mp = "padded 1000 msg"
  let ?m = "client_msg P x (map ?pub rs) ?ap ?mp"
  have c: "snd (mix_client_n_hop P x (map ?pub rs) addr msg) = Inr ?m"
    by (rule mix_client_n_hop_eq) (use la lm a in simp_all)
  have lap: "length ?ap = 258" and lmp: "length ?mp = 1002"
    using la lm by (simp_all add: length_padded)
  have "length (take k rs @ drop k rs) \<le> 65537" using a by simp
  from forward_cascade_client [OF ok lap lmp this, of x]
  obtain x' where fwd: "forward_cascade P (take k rs) [?m] =
      Inr [client_msg P x' (map ?pub (drop k rs)) ?ap ?mp]" by auto
  let ?mk = "client_msg P x' (map ?pub (drop k rs)) ?ap ?mp"
  have "length (hmacs ?mk) = length rs - k" "length (address ?mk) = 258" "length (message ?mk) = 1002"
    using client_msg_lengths [OF ok, of x' "map ?pub (drop k rs)" ?ap ?mp] lap lmp by simp_all
  with c fwd show "\<exists>m mk. snd (mix_client_n_hop P x (map ?pub rs) addr msg) = Inr m \<and>
                 forward_cascade P (take k rs) [m] = Inr [mk] \<and>
                 length (hmacs mk) = length rs - k \<and>
                 length (address mk) = 258 \<and> length (message mk) = 1002" by blast
qed

lemma toy_point_size: "\<forall>a. length (export toy_prims (pt_mul toy_prims a (generator toy_prims))) = 1"
  by (simp add: toy_prims_def)

theorem length_invariants_witness:
  "prims_ok toy_prims \<and> length [1, 2, 3 :: byte] \<le> 256 \<and> length [7, 8 :: byte] \<le> 1000 \<and>
   (\<forall>a. length (export toy_prims (pt_mul toy_prims a (generator toy_prims))) = 1) \<and>
   (\<exists>m. mix_client_one_hop toy_prims 4 (Some 9) [1, 2, 3] [7, 8] = Inr m \<and>
        length (export toy_prims (oh_ec_public_key m)) + length (oh_hmac m) + length (oh_address m)
          + length (oh_message m) = 1 + 20 + 258 + 1002) \<and>
   (\<exists>m. snd (mix_client_n_hop toy_prims 4 [Some 3, Some 5] [1, 2, 3] [7, 8]) = Inr m \<and>
        length (hmacs m) = 2 \<and> length (address m) = 258 \<and> length (message m) = 1002) \<and>
   (\<exists>m m'. snd (mix_client_n_hop toy_prims 4 [Some 3, Some 5] [1, 2, 3] [7, 8]) = Inr m \<and>
        snd (mix_server_n_hop toy_prims 3 [m] False) = Inr [Forwarded m'] \<and>
        Suc (length (hmacs m')) = length (hmacs m) \<and>
        length (address m') = 258 \<and> length (message m') = 1002) \<and>
   (\<exists>m mk. snd (mix_client_n_hop toy_prims 4
                 (map (\<lambda>r. pt_mul toy_prims r (generator toy_prims)) [3, 5, 11]) [1, 2, 3] [7, 8]) = Inr m \<and>
        forward_cascade toy_prims (take 2 [3, 5, 11]) [m] = Inr [mk] \<and>
        length (hmacs mk) = length [3, 5, 11 :: int] - 2)"
proof -
  have la: "length [1, 2, 3 :: byte] \<le> 256" and lm: "length [7, 8 :: byte] \<le> 1000" by simp_all
  note li = length_invariants [OF toy_prims_ok la lm toy_point_size, of 4]
  have g: "Some 9 = pt_mul toy_prims 9 (generator toy_prims)"
    "[Some 3, Some 5] = pt_mul toy_prims 3 (generator toy_prims) # [pt_mul toy_prims 5 (generator toy_prims)]"
    by (simp_all add: toy_prims_def)
  obtain m1 where m1: "mix_client_one_hop toy_prims 4 (Some 9) [1, 2, 3] [7, 8] = Inr m1"
    unfolding g using one_hop_client_eq [OF toy_prims_ok la lm] by blast
  with li have c1: "length (export toy_prims (oh_ec_public_key m1)) + length (oh_hmac m1)
      + length (oh_address m1) + length (oh_message m1) = 1 + 20 + 258 + 1002" by blast
  from li have "length [Some 3, Some (5 :: int)] \<le> 65537 \<longrightarrow>
      (\<exists>m. snd (mix_client_n_hop toy_prims 4 [Some 3, Some 5] [1, 2, 3] [7, 8]) = Inr m \<and>
           length (hmacs m) = length [Some 3, Some (5 :: int)] \<and> (\<forall>h \<in> set (hmacs m). length h = 20) \<and>
           length (address m) = 258 \<and> length (message m) = 1002)" by blast
  then obtain m2 where m2: "snd (mix_client_n_hop toy_prims 4 [Some 3, Some 5] [1, 2, 3] [7, 8]) = Inr m2"
    and c2: "length (hmacs m2) = 2" "length (address m2) = 258" "length (message m2) = 1002"
    by auto
  have m2': "m2 = client_msg toy_prims 4 [Some 3, Some 5] (padded 256 [1, 2, 3]) (padded 1000 [7, 8])"
    using m2 mix_client_n_hop_eq [OF la lm, of "[Some 3, Some 5]" toy_prims 4] by simp
  have "\<exists>y. snd (n_hop_decode toy_prims 3 False m2) = Inr (Forwarded y)"
    unfolding m2' g
    by (subst n_hop_decode_client [OF toy_prims_ok]) (simp_all add: length_padded)
  then obtain m3 where "snd (n_hop_decode toy_prims 3 False m2) = Inr (Forwarded m3)" by blast
  then have s3: "snd (mix_server_n_hop toy_prims 3 [m2] False) = Inr [Forwarded m3]"
    by (rule mix_server_n_hop_single)
  with li have "list_all2 (\<lambda>m out. \<exists>m'. out = Forwarded m' \<and>
                         Suc (length (hmacs m')) = length (hmacs m) \<and>
                         length (address m') = 258 \<and> length (message m') = 1002) [m2] [Forwarded m3]"
    by blast
  then have c3: "Suc (length (hmacs m3)) = length (hmacs m2)" "length (address m3) = 258"
    "length (message m3) = 1002" by simp_all
  from li have "length [3, 5, 11 :: int] \<le> 65537 \<and> 2 \<le> length [3, 5, 11 :: int] \<longrightarrow>
     (\<exists>m mk. snd (mix_client_n_hop toy_prims 4
                 (map (\<lambda>r. pt_mul toy_prims r (generator toy_prims)) [3, 5, 11]) [1, 2, 3] [7, 8]) = Inr m \<and>
        forward_cascade toy_prims (take 2 [3, 5, 11]) [m] = Inr [mk] \<and>
        length (hmacs mk) = length [3, 5, 11 :: int] - 2 \<and>
        length (address mk) = 258 \<and> length (message mk) = 1002)" by blast
  then have c4: "\<exists>m mk. snd (mix_client_n_hop toy_prims 4
                 (map (\<lambda>r. pt_mul toy_prims r (generator toy_prims)) [3, 5, 11]) [1, 2, 3] [7, 8]) = Inr m \<and>
        forward_cascade toy_prims (take 2 [3, 5, 11]) [m] = Inr [mk] \<and>
        length (hmacs mk) = length [3, 5, 11 :: int] - 2" by auto
  from toy_prims_ok la lm toy_point_size m1 c1 m2 c2 s3 c3 c4 show ?thesis by blast
qed

lemma unpack_H_s_Inr:
  "unpack_H_s fld d = Inr (n, f) \<Longrightarrow>
     length d = 2 + fld \<and> n = unat (d ! 0) * 256 + unat (d ! 1) \<and> f = drop 2 d \<and> length f = fld"
  by (auto simp: unpack_H_s_def split: if_splits)

lemma one_hop_decode_Inr:
  assumes "one_hop_decode P r msg = Inr (a, m)"
  defines "km \<equiv> sha512 P (export P (pt_mul P r (oh_ec_public_key msg)))"
  defines "ap \<equiv> aes_ctr_enc_dec P (slice 16 32 km) (replicate 16 0) (oh_address msg)"
  defines "mp \<equiv> aes_ctr_enc_dec P (slice 32 48 km) (replicate 16 0) (oh_message msg)"
  shows "a = take (unat (ap ! 0) * 256 + unat (ap ! 1)) (drop 2 ap) \<and> length (drop 2 ap) = 256 \<and>
         m = take (unat (mp ! 0) * 256 + unat (mp ! 1)) (drop 2 mp) \<and> length (drop 2 mp) = 1000"
proof -
  from assms(1) obtain n1 f1 n2 f2 where
    u1: "unpack_H_s 256 ap = Inr (n1, f1)" and u2: "unpack_H_s 1000 mp = Inr (n2, f2)"
    and a: "a = take n1 f1" and m: "m = take n2 f2"
    unfolding one_hop_decode_def Let_def km_def ap_def mp_def
    by (auto split: if_splits sum.splits)
  from unpack_H_s_Inr [OF u1] unpack_H_s_Inr [OF u2] a m show ?thesis by simp
qed

lemma n_hop_decode_final_Inr:
  assumes "snd (n_hop_decode P r True msg) = Inr out"
  defines "km \<equiv> sha512 P (export P (pt_mul P r (ec_public_key msg)))"
  defines "ap \<equiv> aes_ctr_enc_dec P (slice 16 32 km) (replicate 16 0) (address msg)"
  defines "mp \<equiv> aes_ctr_enc_dec P (slice 32 48 km) (replicate 16 0) (message msg)"
  shows "out = Delivered (take (unat (ap ! 0) * 256 + unat (ap ! 1)) (drop 2 ap),
                          take (unat (mp ! 0) * 256 + unat (mp ! 1)) (drop 2 mp)) \<and>
         length (drop 2 ap) = 256 \<and> length (drop 2 mp) = 1000"
proof -
  from assms(1) obtain n1 f1 n2 f2 where
    u1: "unpack_H_s 256 ap = Inr (n1, f1)" and u2: "unpack_H_s 1000 mp = Inr (n2, f2)"
    and o: "out = Delivered (take n1 f1, take n2 f2)"
    unfolding n_hop_decode_def Let_def km_def ap_def mp_def
    by (auto split: if_splits sum.splits list.splits)
  from unpack_H_s_Inr [OF u1] unpack_H_s_Inr [OF u2] o show ?thesis by simp
qed

lemma one_hop_loop_all2:
  "one_hop_loop P r ms q = Inr outs \<Longrightarrow>
   \<exists>ys. outs = q @ ys \<and> list_all2 (\<lambda>m y. one_hop_decode P r m = Inr y) ms ys"
proof (induction ms arbitrary: q)
  case Nil
  then show ?case by simp
next
  case (Cons m ms)
  from Cons.prems obtain y where y: "one_hop_decode P r m = Inr y"
    and rest: "one_hop_loop P r ms (q @ [y]) = Inr outs"
    by (auto split: sum.splits)
  from Cons.IH [OF rest] obtain ys where "outs = (q @ [y]) @ ys"
    and "list_all2 (\<lambda>m y. one_hop_decode P r m = Inr y) ms ys" by blast
  with y have "outs = q @ (y # ys) \<and> list_all2 (\<lambda>m y. one_hop_decode P r m = Inr y) (m # ms) (y # ys)"
    by simp
  then show ?case by blast
qed

lemma mix_server_one_hop_all2:
  assumes "mix_server_one_hop P r ms = Inr outs"
  shows "\<exists>ys. outs = sort ys \<and> list_all2 (\<lambda>m y. one_hop_decode P r m = Inr y) ms ys"
proof -
  from assms obtain q where q: "one_hop_loop P r ms [] = Inr q" and o: "outs = sort q"
    by (auto simp: mix_server_one_hop_def split: sum.splits)
  from one_hop_loop_all2 [OF q] o show ?thesis by auto
qed

lemma one_hop_decode_errors:
  assumes ok: "prims_ok P" and e: "one_hop_decode P r msg = Inl e"
  shows "e = MalformedMessage \<or> e = MacVerificationFailure"
proof (rule ccontr)
  assume ne: "\<not> (e = MalformedMessage \<or> e = MacVerificationFailure)"
  with e have fmt: "length (oh_address msg) = 258" "length (oh_message msg) = 1002"
    by (auto simp: one_hop_decode_def split: if_splits)
  have u: "unpack_H_s 256 (aes_ctr_enc_dec P k iv (oh_address msg)) \<noteq> Inl e'"
    "unpack_H_s 1000 (aes_ctr_enc_dec P k' iv (oh_message msg)) \<noteq> Inl e'" for k k' iv e'
    by (simp_all add: unpack_H_s_def prims_ok_aes_len [OF ok] fmt)
  from e ne show False
    unfolding one_hop_decode_def Let_def
    by (auto simp: u split: if_splits sum.splits)
qed

lemma n_hop_decode_final_errors:
  assumes ok: "prims_ok P" and n: "length (hmacs msg) \<le> 65537"
    and e: "snd (n_hop_decode P r True msg) = Inl e"
  shows "e = MalformedMessage \<or> e = MacVerificationFailure \<or> e = IndexError"
proof (rule ccontr)
  assume ne: "\<not> (e = MalformedMessage \<or> e = MacVerificationFailure \<or> e = IndexError)"
  with e obtain h0 others where hm: "hmacs msg = h0 # others"
    by (cases "hmacs msg") (auto simp: n_hop_decode_def split: if_splits)
  from e ne hm have fmt: "length (address msg) = 258" "length (message msg) = 1002"
    by (auto simp: n_hop_decode_def split: if_splits)
  have u: "unpack_H_s 256 (aes_ctr_enc_dec P k iv (address msg)) \<noteq> Inl e'"
    "unpack_H_s 1000 (aes_ctr_enc_dec P k' iv (message msg)) \<noteq> Inl e'" for k k' iv e'
    by (simp_all add: unpack_H_s_def prims_ok_aes_len [OF ok] fmt)
  have d: "decrypt_hmacs P k (enumerate 0 others) [] \<noteq> Inl e'" for k e'
    using decrypt_hmacs_eq [of 0 others P k "[]"] n hm by simp
  from e ne show False
    unfolding n_hop_decode_def Let_def
    by (auto simp: u d hm split: if_splits sum.splits)
qed

lemma toy_one_hop_overlong:
  "one_hop_decode toy_prims 5
     \<lparr>oh_ec_public_key = Some 1, oh_hmac = replicate 20 96,
      oh_address = replicate 258 0, oh_message = replicate 1002 0\<rparr> =
   Inr (replicate 256 97, replicate 1000 97)"
  by (simp add: one_hop_decode_def toy_prims_def slice_def secure_compare_def
      aes_ctr_enc_dec_def unpack_H_s_def sum_list_replicate Let_def)

lemma one_hop_decode_bound:
  assumes "one_hop_decode P r msg = Inr (a, m)"
  shows "length a \<le> 256 \<and> length m \<le> 1000"
proof -
  from assms obtain n1 f1 n2 f2 where
    u1: "unpack_H_s 256 (aes_ctr_enc_dec P
            (slice 16 32 (sha512 P (export P (pt_mul P r (oh_ec_public_key msg)))))
            (replicate 16 0) (oh_address msg)) = Inr (n1, f1)"
    and u2: "unpack_H_s 1000 (aes_ctr_enc_dec P
            (slice 32 48 (sha512 P (export P (pt_mul P r (oh_ec_public_key msg)))))
            (replicate 16 0) (oh_message msg)) = Inr (n2, f2)"
    and a: "a = take n1 f1" and m: "m = take n2 f2"
    unfolding one_hop_decode_def Let_def
    by (auto split: if_splits sum.splits)
  from unpack_H_s_Inr [OF u1] have "length f1 = 256" by simp
  moreover from unpack_H_s_Inr [OF u2] have "length f2 = 1000" by simp
  ultimately show ?thesis using a m by simp
qed

lemma n_hop_decode_final_bound:
  assumes "snd (n_hop_decode P r True msg) = Inr out"
  shows "\<exists>a m. out = Delivered (a, m) \<and> length a \<le> 256 \<and> length m \<le> 1000"
proof -
  from assms obtain n1 f1 n2 f2 where
    u1: "unpack_H_s 256 (aes_ctr_enc_dec P
            (slice 16 32 (sha512 P (export P (pt_mul P r (ec_public_key msg)))))
            (replicate 16 0) (address msg)) = Inr (n1, f1)"
    and u2: "unpack_H_s 1000 (aes_ctr_enc_dec P
            (slice 32 48 (sha512 P (export P (pt_mul P r (ec_public_key msg)))))
            (replicate 16 0) (message msg)) = Inr (n2, f2)"
    and o: "out = Delivered (take n1 f1, take n2 f2)"
    unfolding n_hop_decode_def Let_def
    by (auto split: if_splits sum.splits list.splits)
  from unpack_H_s_Inr [OF u1] have "length f1 = 256" by simp
  moreover from unpack_H_s_Inr [OF u2] have "length f2 = 1000" by simp
  ultimately show ?thesis using o by simp
qed

text \<open>
  C10 (truncation at delivery).  Every pair the one-hop decoder returns, and every output
  of the n-hop decoder with \<open>final\<close> set, is a decoded tuple whose address has at most
  256 bytes and whose payload at most 1000: each is the 256-byte (1000-byte) field of
  the decrypted plaintext, cut to the length its two-byte prefix declares, and the whole
  field when the prefix is larger.  Decoding raises nothing for such a prefix: with the
  library as assumed, a message fails only as malformed or at the MAC (or, n-hop, with
  \<open>IndexError\<close> on an empty MAC list).
\<close>

theorem final_truncation:
  fixes P :: "'p prims"
  shows "(mix_server_one_hop P r msgs = Inr outs \<longrightarrow>
            (\<forall>(a, m) \<in> set outs. length a \<le> 256 \<and> length m \<le> 1000)) \<and>
         (snd (mix_server_n_hop P r nmsgs True) = Inr nouts \<longrightarrow>
            (\<forall>out \<in> set nouts. \<exists>a m. out = Delivered (a, m) \<and> length a \<le> 256 \<and> length m \<le> 1000)) \<and>
         (one_hop_decode P r msg = Inr (a, m) \<longrightarrow>
            (let km = sha512 P (export P (pt_mul P r (oh_ec_public_key msg)));
                 ap = aes_ctr_enc_dec P (slice 16 32 km) (replicate 16 0) (oh_address msg);
                 mp = aes_ctr_enc_dec P (slice 32 48 km) (replicate 16 0) (oh_message msg)
             in length (drop 2 ap) = 256 \<and> length (drop 2 mp) = 1000 \<and>
                a = take (unat (ap ! 0) * 256 + unat (ap ! 1)) (drop 2 ap) \<and>
                m = take (unat (mp ! 0) * 256 + unat (mp ! 1)) (drop 2 mp))) \<and>
         (snd (n_hop_decode P r True nmsg) = Inr out \<longrightarrow>
            (let km = sha512 P (export P (pt_mul P r (ec_public_key nmsg)));
                 ap = aes_ctr_enc_dec P (slice 16 32 km) (replicate 16 0) (address nmsg);
                 mp = aes_ctr_enc_dec P (slice 32 48 km) (replicate 16 0) (message nmsg)
             in length (drop 2 ap) = 256 \<and> length (drop 2 mp) = 1000 \<and>
                out = Delivered (take (unat (ap ! 0) * 256 + unat (ap ! 1)) (drop 2 ap),
                                 take (unat (mp ! 0) * 256 + unat (mp ! 1)) (drop 2 mp)))) \<and>
         (prims_ok P \<and> one_hop_decode P r msg = Inl e \<longrightarrow>
            e = MalformedMessage \<or> e = MacVerificationFailure) \<and>
         (prims_ok P \<and> length (hmacs nmsg) \<le> 65537 \<and> snd (n_hop_decode P r True nmsg) = Inl e \<longrightarrow>
            e = MalformedMessage \<or> e = MacVerificationFailure \<or> e = IndexError)"
proof (intro conjI impI)
  assume "mix_server_one_hop P r msgs = Inr outs"
  from mix_server_one_hop_all2 [OF this] obtain ys where o: "outs = sort ys"
    and ys: "list_all2 (\<lambda>m y. one_hop_decode P r m = Inr y) msgs ys" by blast
  have "length a \<le> 256 \<and> length m \<le> 1000" if "(a, m) \<in> set ys" for a m
  proof -
    from that ys obtain msg where "one_hop_decode P r msg = Inr (a, m)"
      by (auto simp: list_all2_conv_all_nth in_set_conv_nth)
    then show ?thesis by (rule one_hop_decode_bound)
  qed
  then show "\<forall>(a, m) \<in> set outs. length a \<le> 256 \<and> length m \<le> 1000"
    by (auto simp: o)
next
  assume "snd (mix_server_n_hop P r nmsgs True) = Inr nouts"
  then have ys: "list_all2 (\<lambda>m y. snd (n_hop_decode P r True m) = Inr y) nmsgs nouts"
    by (rule mix_server_n_hop_all2)
  show "\<forall>out \<in> set nouts. \<exists>a m. out = Delivered (a, m) \<and> length a \<le> 256 \<and> length m \<le> 1000"
  proof
    fix out assume "out \<in> set nouts"
    with ys obtain nm where "snd (n_hop_decode P r True nm) = Inr out"
      by (auto simp: list_all2_conv_all_nth in_set_conv_nth)
    then show "\<exists>a m. out = Delivered (a, m) \<and> length a \<le> 256 \<and> length m \<le> 1000"
      by (rule n_hop_decode_final_bound)
  qed
next
  assume "one_hop_decode P r msg = Inr (a, m)"
  from one_hop_decode_Inr [OF this]
  show "let km = sha512 P (export P (pt_mul P r (oh_ec_public_key msg)));
            ap = aes_ctr_enc_dec P (slice 16 32 km) (replicate 16 0) (oh_address msg);
            mp = aes_ctr_enc_dec P (slice 32 48 km) (replicate 16 0) (oh_message msg)
        in length (drop 2 ap) = 256 \<and> length (drop 2 mp) = 1000 \<and>
           a = take (unat (ap ! 0) * 256 + unat (ap ! 1)) (drop 2 ap) \<and>
           m = take (unat (mp ! 0) * 256 + unat (mp ! 1)) (drop 2 mp)"
    by (simp add: Let_def)
next
  assume "snd (n_hop_decode P r True nmsg) = Inr out"
  from n_hop_decode_final_Inr [OF this]
  show "let km = sha512 P (export P (pt_mul P r (ec_public_key nmsg)));
            ap = aes_ctr_enc_dec P (slice 16 32 km) (replicate 16 0) (address nmsg);
            mp = aes_ctr_enc_dec P (slice 32 48 km) (replicate 16 0) (message nmsg)
        in length (drop 2 ap) = 256 \<and> length (drop 2 mp) = 1000 \<and>
           out = Delivered (take (unat (ap ! 0) * 256 + unat (ap ! 1)) (drop 2 ap),
                            take (unat (mp ! 0) * 256 + unat (mp ! 1)) (drop 2 mp))"
    by (simp add: Let_def)
next
  assume "prims_ok P \<and> one_hop_decode P r msg = Inl e"
  then show "e = MalformedMessage \<or> e = MacVerificationFailure"
    using one_hop_decode_errors by blast
next
  assume "prims_ok P \<and> length (hmacs nmsg) \<le> 65537 \<and> snd (n_hop_decode P r True nmsg) = Inl e"
  then show "e = MalformedMessage \<or> e = MacVerificationFailure \<or> e = IndexError"
    using n_hop_decode_final_errors by blast
qed

lemma toy_n_hop_overlong:
  "snd (n_hop_decode toy_prims 5 True
     \<lparr>ec_public_key = Some 1, hmacs = [replicate 20 96],
      address = replicate 258 0, message = replicate 1002 0\<rparr>) =
   Inr (Delivered (replicate 256 97, replicate 1000 97))"
  by (simp add: n_hop_decode_def toy_prims_def slice_def secure_compare_def
      aes_ctr_enc_dec_def unpack_H_s_def sum_list_replicate Let_def)

lemma mix_server_one_hop_single:
  "one_hop_decode P r m = Inr y \<Longrightarrow> mix_server_one_hop P r [m] = Inr [y]"
  by (simp add: mix_server_one_hop_def)

theorem final_truncation_witness:
  "mix_server_one_hop toy_prims 5
     [\<lparr>oh_ec_public_key = Some 1, oh_hmac = replicate 20 96,
       oh_address = replicate 258 0, oh_message = replicate 1002 0\<rparr>] =
     Inr [(replicate 256 97, replicate 1000 97)] \<and>
   length (replicate 256 (97 :: byte)) \<le> 256 \<and> length (replicate 1000 (97 :: byte)) \<le> 1000 \<and>
   snd (mix_server_n_hop toy_prims 5
     [\<lparr>ec_public_key = Some 1, hmacs = [replicate 20 96],
       address = replicate 258 0, message = replicate 1002 0\<rparr>] True) =
     Inr [Delivered (replicate 256 97, replicate 1000 97)] \<and>
   (256 :: nat) < unat (97 :: byte) * 256 + unat (97 :: byte)"
proof -
  let ?m = "\<lparr>oh_ec_public_key = Some (1 :: int), oh_hmac = replicate 20 96,
       oh_address = replicate 258 0, oh_message = replicate 1002 0\<rparr>"
  let ?n = "\<lparr>ec_public_key = Some (1 :: int), hmacs = [replicate 20 96],
       address = replicate 258 0, message = replicate 1002 0\<rparr>"
  have s1: "mix_server_one_hop toy_prims 5 [?m] = Inr [(replicate 256 97, replicate 1000 97)]"
    by (rule mix_server_one_hop_single [OF toy_one_hop_overlong])
  have s2: "snd (mix_server_n_hop toy_prims 5 [?n] True) =
      Inr [Delivered (replicate 256 97, replicate 1000 97)]"
    by (rule mix_server_n_hop_single [OF toy_n_hop_overlong])
  note ft = final_truncation [of toy_prims 5 "[?m]" "[(replicate 256 97, replicate 1000 97)]"]
  have b: "\<forall>(a, m) \<in> set [(replicate 256 (97 :: byte), replicate 1000 (97 :: byte))].
      length a \<le> 256 \<and> length m \<le> 1000"
    by (rule ft [THEN conjunct1, THEN mp, OF s1])
  from b have b1: "length (replicate 256 (97 :: byte)) \<le> 256"
    and b2: "length (replicate 1000 (97 :: byte)) \<le> 1000" by simp_all
  have c: "(256 :: nat) < unat (97 :: byte) * 256 + unat (97 :: byte)" by simp
  from s1 b1 b2 s2 c show ?thesis by (intro conjI)
qed

lemma encrypt_hmacs_errors:
  "encrypt_hmacs P hk jms st = Inl e \<Longrightarrow> e = StructError \<or> e = IndexError"
proof (induction jms arbitrary: st)
  case Nil
  then show ?case by (cases st) simp
next
  case (Cons jm jms)
  obtain j m where jm: "jm = (j, m)" by (cases jm)
  obtain h macs where st: "st = (h, macs)" by (cases st)
  from Cons.prems Cons.IH show ?case
    by (auto simp: jm st pack_H14s_def list_pop_def Let_def split: sum.splits if_splits)
qed

lemma client_layer_errors:
  "snd (client_layer P n ikm st) = Inl e \<Longrightarrow> e = StructError \<or> e = IndexError"
  using encrypt_hmacs_errors
  by (fastforce simp: client_layer_def Let_def split: prod.splits sum.splits)

lemma client_layers_errors:
  "snd (client_layers P n ikms (out, st)) = Inl e \<Longrightarrow> e = StructError \<or> e = IndexError"
proof (induction ikms arbitrary: out st)
  case Nil
  then show ?case by simp
next
  case (Cons ikm ikms)
  show ?case
  proof (cases "client_layer P n ikm st")
    case (Pair pr res)
    show ?thesis
    proof (cases res)
      case (Inl e')
      with Pair Cons.prems have "e' = e" by simp
      with Inl Pair client_layer_errors [of P n ikm st e] show ?thesis by simp
    next
      case (Inr st')
      with Pair Cons.prems have "snd (client_layers P n ikms (out @ pr, st')) = Inl e" by simp
      then show ?thesis by (rule Cons.IH)
    qed
  qed
qed

lemma mix_client_n_hop_assertion:
  "snd (mix_client_n_hop P x pks addr msg) = Inl AssertionError \<longleftrightarrow>
     \<not> (length addr \<le> 256 \<and> length msg \<le> 1000)"
proof (cases "length addr \<le> 256 \<and> length msg \<le> 1000")
  case False
  then show ?thesis by (auto simp: mix_client_n_hop_def)
next
  case True
  let ?kms = "fst (derive_keys P 0 pks ([], [x]))"
  let ?r = "client_layers P (length ?kms) (rev (enumerate 0 ?kms))
              ([], (padded 256 addr, padded 1000 msg, [], 0))"
  have "snd ?r \<noteq> Inl AssertionError"
    using client_layers_errors [of P "length ?kms" "rev (enumerate 0 ?kms)" "[]" _ AssertionError]
    by auto
  then have "snd (mix_client_n_hop P x pks addr msg) \<noteq> Inl AssertionError"
    using True
    by (auto simp: mix_client_n_hop_def pack_padded Let_def split: prod.splits sum.splits)
  with True show ?thesis by simp
qed

text \<open>
  C9 (no check of the relay keys).  \<open>mix_client_one_hop\<close> fails its assertion on a
  public key that is not a point of the group.  \<open>mix_client_n_hop\<close> fails an
  assertion exactly when the address exceeds 256 bytes or the message 1000 bytes,
  whatever the public keys are; with both sizes in range it encodes every list of up to
  65537 public keys, valid points or not.
\<close>

theorem n_hop_client_no_key_check:
  fixes P :: "'p prims"
  shows "(\<not> check_point P pk \<longrightarrow> mix_client_one_hop P x pk addr msg = Inl AssertionError) \<and>
         (snd (mix_client_n_hop P x pks addr msg) = Inl AssertionError \<longleftrightarrow>
            \<not> (length addr \<le> 256 \<and> length msg \<le> 1000)) \<and>
         (length addr \<le> 256 \<and> length msg \<le> 1000 \<and> length pks \<le> 65537 \<longrightarrow>
            (\<exists>m. snd (mix_client_n_hop P x pks addr msg) = Inr m))"
proof (intro conjI impI)
  assume "\<not> check_point P pk"
  then show "mix_client_one_hop P x pk addr msg = Inl AssertionError"
    by (simp add: mix_client_one_hop_def)
next
  show "snd (mix_client_n_hop P x pks addr msg) = Inl AssertionError \<longleftrightarrow>
            \<not> (length addr \<le> 256 \<and> length msg \<le> 1000)"
    by (rule mix_client_n_hop_assertion)
next
  assume "length addr \<le> 256 \<and> length msg \<le> 1000 \<and> length pks \<le> 65537"
  then show "\<exists>m. snd (mix_client_n_hop P x pks addr msg) = Inr m"
    using mix_client_n_hop_eq [of addr msg pks P x] by blast
qed

theorem n_hop_client_no_key_check_witness:
  "\<not> check_point toy_prims None \<and>
   mix_client_one_hop toy_prims 4 None [1] [2] = Inl AssertionError \<and>
   length [1 :: byte] \<le> 256 \<and> length [2 :: byte] \<le> 1000 \<and> length [None :: int option] \<le> 65537 \<and>
   snd (mix_client_n_hop toy_prims 4 [None] [1] [2]) \<noteq> Inl AssertionError \<and>
   (\<exists>m. snd (mix_client_n_hop toy_prims 4 [None] [1] [2]) = Inr m)"
proof -
  note t = n_hop_client_no_key_check [of toy_prims None 4 "[1]" "[2]" "[None]"]
  have c: "\<not> check_point toy_prims None" by (simp add: toy_prims_def)
  have l: "length [1 :: byte] \<le> 256 \<and> length [2 :: byte] \<le> 1000 \<and> length [None :: int option] \<le> 65537"
    by simp
  from t c have a: "mix_client_one_hop toy_prims 4 None [1] [2] = Inl AssertionError" by blast
  from t l have b: "snd (mix_client_n_hop toy_prims 4 [None] [1] [2]) \<noteq> Inl AssertionError" by blast
  from t l have d: "\<exists>m. snd (mix_client_n_hop toy_prims 4 [None] [1] [2]) = Inr m" by blast
  from c a l b d show ?thesis by blast
qed

lemma mix_server_one_hop_fail:
  "\<forall>m \<in> set good. \<exists>y. one_hop_decode P r m = Inr y \<Longrightarrow> one_hop_decode P r bad = Inl e \<Longrightarrow>
   mix_server_one_hop P r (good @ bad # rest) = Inl e"
  by (simp add: mix_server_one_hop_def one_hop_loop_fail)

lemma mix_server_n_hop_fail:
  "\<forall>m \<in> set good. \<exists>y. snd (n_hop_decode P r f m) = Inr y \<Longrightarrow>
   snd (n_hop_decode P r f bad) = Inl e \<Longrightarrow>
   snd (mix_server_n_hop P r (good @ bad # rest) f) = Inl e"
  by (simp add: mix_server_n_hop_def n_hop_loop_fail)

lemma toy_one_hop_malformed:
  "one_hop_decode toy_prims 5
     \<lparr>oh_ec_public_key = Some 1, oh_hmac = [], oh_address = [], oh_message = []\<rparr> =
   Inl MalformedMessage"
  by (simp add: one_hop_decode_def)

lemma toy_n_hop_malformed:
  "snd (n_hop_decode toy_prims 5 f
     \<lparr>ec_public_key = Some 1, hmacs = [[]], address = [], message = []\<rparr>) =
   Inl MalformedMessage"
  by (simp add: n_hop_decode_def toy_prims_def)

text \<open>
  C4 as stated (a failure is local to its message, the other messages of the batch are
  still processed and their outputs returned) does not hold: a message that decodes alone
  is lost when a malformed message precedes it in the batch, for both servers.  The
  exception leaves the loop and the function.
\<close>

theorem batch_failure_aborts_counterexample:
  "mix_server_one_hop toy_prims 5
     [\<lparr>oh_ec_public_key = Some 1, oh_hmac = replicate 20 96,
       oh_address = replicate 258 0, oh_message = replicate 1002 0\<rparr>] =
     Inr [(replicate 256 97, replicate 1000 97)] \<and>
   mix_server_one_hop toy_prims 5
     [\<lparr>oh_ec_public_key = Some 1, oh_hmac = [], oh_address = [], oh_message = []\<rparr>,
      \<lparr>oh_ec_public_key = Some 1, oh_hmac = replicate 20 96,
       oh_address = replicate 258 0, oh_message = replicate 1002 0\<rparr>] =
     Inl MalformedMessage \<and>
   snd (mix_server_n_hop toy_prims 5
     [\<lparr>ec_public_key = Some 1, hmacs = [replicate 20 96],
       address = replicate 258 0, message = replicate 1002 0\<rparr>] True) =
     Inr [Delivered (replicate 256 97, replicate 1000 97)] \<and>
   snd (mix_server_n_hop toy_prims 5
     [\<lparr>ec_public_key = Some 1, hmacs = [[]], address = [], message = []\<rparr>,
      \<lparr>ec_public_key = Some 1, hmacs = [replicate 20 96],
       address = replicate 258 0, message = replicate 1002 0\<rparr>] True) =
     Inl MalformedMessage"
proof (intro conjI)
  show "mix_server_one_hop toy_prims 5
     [\<lparr>oh_ec_public_key = Some 1, oh_hmac = replicate 20 96,
       oh_address = replicate 258 0, oh_message = replicate 1002 0\<rparr>] =
     Inr [(replicate 256 97, replicate 1000 97)]"
    by (rule mix_server_one_hop_single [OF toy_one_hop_overlong])
next
  show "mix_server_one_hop toy_prims 5
     [\<lparr>oh_ec_public_key = Some 1, oh_hmac = [], oh_address = [], oh_message = []\<rparr>,
      \<lparr>oh_ec_public_key = Some 1, oh_hmac = replicate 20 96,
       oh_address = replicate 258 0, oh_message = replicate 1002 0\<rparr>] =
     Inl MalformedMessage"
    using mix_server_one_hop_fail [of "[]" toy_prims 5, OF _ toy_one_hop_malformed] by simp
next
  show "snd (mix_server_n_hop toy_prims 5
     [\<lparr>ec_public_key = Some 1, hmacs = [replicate 20 96],
       address = replicate 258 0, message = replicate 1002 0\<rparr>] True) =
     Inr [Delivered (replicate 256 97, replicate 1000 97)]"
    by (rule mix_server_n_hop_single [OF toy_n_hop_overlong])
next
  show "snd (mix_server_n_hop toy_prims 5
     [\<lparr>ec_public_key = Some 1, hmacs = [[]], address = [], message = []\<rparr>,
      \<lparr>ec_public_key = Some 1, hmacs = [replicate 20 96],
       address = replicate 258 0, message = replicate 1002 0\<rparr>] True) =
     Inl MalformedMessage"
    using mix_server_n_hop_fail [of "[]" toy_prims 5 True, OF _ toy_n_hop_malformed] by simp
qed

text \<open>
  C4, amended.  A failure raised while decoding one message of a batch ends the whole call:
  when the messages before it decode, \<open>mix_server_one_hop\<close> and
  \<open>mix_server_n_hop\<close> raise the error of the first failing message and return no
  output, whatever follows it in the batch.  A batch whose messages all decode returns
  the output of every one of them.
\<close>

theorem batch_failure_aborts:
  fixes P :: "'p prims"
  shows "((\<forall>m \<in> set good. \<exists>y. one_hop_decode P r m = Inr y) \<and> one_hop_decode P r bad = Inl e \<longrightarrow>
            mix_server_one_hop P r (good @ bad # rest) = Inl e) \<and>
         ((\<forall>m \<in> set ngood. \<exists>y. snd (n_hop_decode P r final m) = Inr y) \<and>
          snd (n_hop_decode P r final nbad) = Inl e' \<longrightarrow>
            snd (mix_server_n_hop P r (ngood @ nbad # nrest) final) = Inl e') \<and>
         ((\<forall>m \<in> set good. \<exists>y. one_hop_decode P r m = Inr y) \<longrightarrow>
            mix_server_one_hop P r good =
              Inr (sort (map (\<lambda>m. projr (one_hop_decode P r m)) good))) \<and>
         ((\<forall>m \<in> set ngood. \<exists>y. snd (n_hop_decode P r final m) = Inr y) \<longrightarrow>
            snd (mix_server_n_hop P r ngood final) =
              Inr (map (\<lambda>m. projr (snd (n_hop_decode P r final m))) ngood))"
  using mix_server_one_hop_fail [of good P r bad e rest]
    mix_server_n_hop_fail [of ngood P r final nbad e' nrest]
    mix_server_one_hop_ok [of good P r] mix_server_n_hop_ok [of ngood P r final]
  by blast

theorem batch_failure_aborts_witness:
  "one_hop_decode toy_prims 5
     \<lparr>oh_ec_public_key = Some 1, oh_hmac = replicate 20 96,
      oh_address = replicate 258 0, oh_message = replicate 1002 0\<rparr> =
     Inr (replicate 256 97, replicate 1000 97) \<and>
   one_hop_decode toy_prims 5
     \<lparr>oh_ec_public_key = Some 1, oh_hmac = [], oh_address = [], oh_message = []\<rparr> =
     Inl MalformedMessage \<and>
   mix_server_one_hop toy_prims 5
     ([\<lparr>oh_ec_public_key = Some 1, oh_hmac = replicate 20 96,
        oh_address = replicate 258 0, oh_message = replicate 1002 0\<rparr>]
      @ \<lparr>oh_ec_public_key = Some 1, oh_hmac = [], oh_address = [], oh_message = []\<rparr>
      # [\<lparr>oh_ec_public_key = Some 1, oh_hmac = replicate 20 96,
          oh_address = replicate 258 0, oh_message = replicate 1002 0\<rparr>]) =
     Inl MalformedMessage \<and>
   snd (n_hop_decode toy_prims 5 True
     \<lparr>ec_public_key = Some 1, hmacs = [replicate 20 96],
      address = replicate 258 0, message = replicate 1002 0\<rparr>) =
     Inr (Delivered (replicate 256 97, replicate 1000 97)) \<and>
   snd (n_hop_decode toy_prims 5 True
     \<lparr>ec_public_key = Some 1, hmacs = [[]], address = [], message = []\<rparr>) =
     Inl MalformedMessage \<and>
   snd (mix_server_n_hop toy_prims 5
     ([\<lparr>ec_public_key = Some 1, hmacs = [replicate 20 96],
        address = replicate 258 0, message = replicate 1002 0\<rparr>]
      @ \<lparr>ec_public_key = Some 1, hmacs = [[]], address = [], message = []\<rparr>
      # [\<lparr>ec_public_key = Some 1, hmacs = [replicate 20 96],
          address = replicate 258 0, message = replicate 1002 0\<rparr>]) True) =
     Inl MalformedMessage"
proof -
  let ?g = "\<lparr>oh_ec_public_key = Some (1 :: int), oh_hmac = replicate 20 96,
              oh_address = replicate 258 0, oh_message = replicate 1002 0\<rparr>"
  let ?b = "\<lparr>oh_ec_public_key = Some (1 :: int), oh_hmac = [], oh_address = [], oh_message = []\<rparr>"
  let ?ng = "\<lparr>ec_public_key = Some (1 :: int), hmacs = [replicate 20 96],
              address = replicate 258 0, message = replicate 1002 0\<rparr>"
  let ?nb = "\<lparr>ec_public_key = Some (1 :: int), hmacs = [[]], address = [], message = []\<rparr>"
  have g: "\<forall>m \<in> set [?g]. \<exists>y. one_hop_decode toy_prims 5 m = Inr y"
    using toy_one_hop_overlong by simp
  have ng: "\<forall>m \<in> set [?ng]. \<exists>y. snd (n_hop_decode toy_prims 5 True m) = Inr y"
    using toy_n_hop_overlong by simp
  note b = toy_one_hop_malformed
  note nb = toy_n_hop_malformed [of True]
  note t = batch_failure_aborts [of "[?g]" toy_prims 5 ?b MalformedMessage "[?g]"
      "[?ng]" True ?nb MalformedMessage "[?ng]"]
  have c1: "mix_server_one_hop toy_prims 5 ([?g] @ ?b # [?g]) = Inl MalformedMessage"
    by (rule t [THEN conjunct1, THEN mp, OF conjI [OF g b]])
  have c2: "snd (mix_server_n_hop toy_prims 5 ([?ng] @ ?nb # [?ng]) True) = Inl MalformedMessage"
    by (rule t [THEN conjunct2, THEN conjunct1, THEN mp, OF conjI [OF ng nb]])
  from toy_one_hop_overlong b c1 toy_n_hop_overlong nb c2 show ?thesis by (intro conjI)
qed

lemma n_hop_decode_empty_macs:
  "check_point P (ec_public_key m) \<Longrightarrow> hmacs m = [] \<Longrightarrow>
   n_hop_decode P r f m = ([], Inl IndexError)"
  by (simp add: n_hop_decode_def)

lemma n_hop_decode_malformed:
  "\<not> check_point P (ec_public_key m) \<or>
   (\<exists>h0 others. hmacs m = h0 # others \<and>
      (length h0 \<noteq> 20 \<or> length (address m) \<noteq> 258 \<or> length (message m) \<noteq> 1002)) \<Longrightarrow>
   n_hop_decode P r f m = ([], Inl MalformedMessage)"
  by (auto simp: n_hop_decode_def)

text \<open>
  C5 (validation).  An n-hop message with a valid point, fields of the right lengths and an
  empty MAC list is not rejected as malformed: the test of the length of
  \<open>msg.hmacs[0]\<close> raises \<open>IndexError\<close>.  (The other violations the claim lists are
  rejected as malformed, before any key is derived: lemma \<open>n_hop_decode_malformed\<close>.)
\<close>

theorem empty_mac_list_index_error:
  "snd (mix_server_n_hop toy_prims 5
     [\<lparr>ec_public_key = Some 1, hmacs = [],
       address = replicate 258 0, message = replicate 1002 0\<rparr>] False) = Inl IndexError \<and>
   snd (mix_server_n_hop toy_prims 5
     [\<lparr>ec_public_key = Some 1, hmacs = [],
       address = replicate 258 0, message = replicate 1002 0\<rparr>] True) = Inl IndexError"
proof -
  let ?m = "\<lparr>ec_public_key = Some (1 :: int), hmacs = [],
       address = replicate 258 0, message = replicate 1002 0\<rparr>"
  have "n_hop_decode toy_prims 5 f ?m = ([], Inl IndexError)" for f
    by (rule n_hop_decode_empty_macs) (simp_all add: toy_prims_def)
  then have "snd (n_hop_decode toy_prims 5 f ?m) = Inl IndexError" for f by simp
  from mix_server_n_hop_fail [of "[]" toy_prims 5 _ ?m IndexError "[]", OF _ this]
  show ?thesis by simp
qed

lemma mix_server_one_hop_sorted:
  "mix_server_one_hop P r ms = Inr outs \<Longrightarrow> sorted outs"
  by (auto simp: mix_server_one_hop_def split: sum.splits)

lemma mix_server_n_hop_two:
  "snd (n_hop_decode P r f m1) = Inr y1 \<Longrightarrow> snd (n_hop_decode P r f m2) = Inr y2 \<Longrightarrow>
   snd (mix_server_n_hop P r [m1, m2] f) = Inr [y1, y2]"
  by (simp add: mix_server_n_hop_ok)

lemma mix_server_one_hop_two:
  "one_hop_decode P r m1 = Inr y1 \<Longrightarrow> one_hop_decode P r m2 = Inr y2 \<Longrightarrow>
   mix_server_one_hop P r [m1, m2] = Inr (sort [y1, y2])"
  by (simp add: mix_server_one_hop_def)

lemma toy_pub: "pt_mul toy_prims r (generator toy_prims) = Some r"
  by (simp add: toy_prims_def)

text \<open>
  C3 (output order).  \<open>mix_server_one_hop\<close> sorts its output (lemma
  \<open>mix_server_one_hop_sorted\<close>); \<open>mix_server_n_hop\<close> with \<open>final\<close> set does not:
  for two client messages to the addresses \<open>[2]\<close> and \<open>[1]\<close>, in this order, it
  returns the decoded tuples in arrival order, which is not sorted, where the one-hop
  server returns them sorted.
\<close>

theorem n_hop_final_output_unsorted:
  "snd (mix_server_n_hop toy_prims 5
          [projr (snd (mix_client_n_hop toy_prims 4 [Some 5] [2] [])),
           projr (snd (mix_client_n_hop toy_prims 4 [Some 5] [1] []))] True) =
     Inr [Delivered ([2], []), Delivered ([1], [])] \<and>
   \<not> sorted [([2], []), ([1], []) :: bytes \<times> bytes] \<and>
   mix_server_one_hop toy_prims 5
          [projr (mix_client_one_hop toy_prims 4 (Some 5) [2] []),
           projr (mix_client_one_hop toy_prims 4 (Some 5) [1] [])] =
     Inr [([1], []), ([2], [])]"
proof (intro conjI)
  have c: "projr (snd (mix_client_n_hop toy_prims 4 [Some 5] a [])) =
      client_msg toy_prims 4 [pt_mul toy_prims 5 (generator toy_prims)] (padded 256 a) (padded 1000 [])"
    if "length a \<le> 256" for a
    using mix_client_n_hop_eq [of a "[]" "[Some 5]" toy_prims 4] that by (simp add: toy_pub)
  have d: "snd (n_hop_decode toy_prims 5 True (projr (snd (mix_client_n_hop toy_prims 4 [Some 5] a [])))) =
      Inr (Delivered (a, []))" if "length a \<le> 256" for a
    unfolding c [OF that] by (rule final_decode_client [OF toy_prims_ok that]) simp
  have d2: "snd (n_hop_decode toy_prims 5 True (projr (snd (mix_client_n_hop toy_prims 4 [Some 5] [2] [])))) =
      Inr (Delivered ([2], []))"
    and d1: "snd (n_hop_decode toy_prims 5 True (projr (snd (mix_client_n_hop toy_prims 4 [Some 5] [1] [])))) =
      Inr (Delivered ([1], []))"
    by (rule d, simp)+
  show "snd (mix_server_n_hop toy_prims 5
          [projr (snd (mix_client_n_hop toy_prims 4 [Some 5] [2] [])),
           projr (snd (mix_client_n_hop toy_prims 4 [Some 5] [1] []))] True) =
     Inr [Delivered ([2], []), Delivered ([1], [])]"
    by (rule mix_server_n_hop_two [OF d2 d1])
next
  show "\<not> sorted [([2], []), ([1], []) :: bytes \<times> bytes]" by simp
next
  have e: "one_hop_decode toy_prims 5 (projr (mix_client_one_hop toy_prims 4 (Some 5) a [])) = Inr (a, [])"
    if la: "length a \<le> 256" for a
  proof -
    have lm: "length ([] :: bytes) \<le> 1000" by simp
    obtain m where m: "mix_client_one_hop toy_prims 4 (pt_mul toy_prims 5 (generator toy_prims)) a [] = Inr m"
      using one_hop_client_eq [OF toy_prims_ok la lm, of 4 5] by auto
    from one_hop_roundtrip [OF toy_prims_ok la lm m] m show ?thesis by (simp add: toy_pub)
  qed
  have e2: "one_hop_decode toy_prims 5 (projr (mix_client_one_hop toy_prims 4 (Some 5) [2] [])) = Inr ([2], [])"
    and e1: "one_hop_decode toy_prims 5 (projr (mix_client_one_hop toy_prims 4 (Some 5) [1] [])) = Inr ([1], [])"
    by (rule e, simp)+
  have s: "sort [([2], []), ([1], []) :: bytes \<times> bytes] = [([1], []), ([2], [])]" by simp
  show "mix_server_one_hop toy_prims 5
          [projr (mix_client_one_hop toy_prims 4 (Some 5) [2] []),
           projr (mix_client_one_hop toy_prims 4 (Some 5) [1] [])] =
     Inr [([1], []), ([2], [])]"
    using mix_server_one_hop_two [OF e2 e1] by (simp only: s)
qed

lemma mix_server_n_hop_single_prints:
  "fst (mix_server_n_hop P r [m] f) = fst (n_hop_decode P r f m)"
  by (simp add: mix_server_n_hop_def split: prod.splits sum.splits)

lemma n_hop_decode_prints:
  assumes "check_point P (ec_public_key m)" and "hmacs m = h0 # others" and "length h0 = 20"
    and "length (address m) = 258" and "length (message m) = 1002"
  shows "fst (n_hop_decode P r f m) =
    [PrintServer (take 20 (hmac_sha512 P
        (slice 0 16 (sha512 P (export P (pt_mul P r (ec_public_key m)))))
        (concat others @ address m @ message m)))]"
  using assms
  by (simp add: n_hop_decode_def Let_def split: sum.splits prod.splits)

lemma mix_client_n_hop_single_prints:
  assumes "length addr \<le> 256" and "length msg \<le> 1000"
  shows "fst (mix_client_n_hop P x [pk] addr msg) =
    [PrintInt 0,
     PrintClient (hmacs (client_msg P x [pk] (padded 256 addr) (padded 1000 msg)))]"
proof -
  have cl: "client_layer P (Suc 0) (0, km) (a, m, [], 0) =
    ([PrintInt 0],
     Inr (aes_ctr_enc_dec P (slice 16 32 km) (replicate 16 0) a,
          aes_ctr_enc_dec P (slice 32 48 km) (replicate 16 0) m,
          [take 20 (hmac_sha512 P (slice 0 16 km)
             (aes_ctr_enc_dec P (slice 16 32 km) (replicate 16 0) a @
              aes_ctr_enc_dec P (slice 32 48 km) (replicate 16 0) m))],
          Suc 0))" for km a m
    using client_layer_eq [of "[]" P "Suc 0" 0 km a m] by (simp add: Let_def)
  show ?thesis
    using assms
    by (simp add: mix_client_n_hop_def pack_padded Let_def cl client_msg_def)
qed

text \<open>
  C8 (no output but the return value).  \<open>mix_client_n_hop\<close> prints the hop counter and
  the list of MACs of the message it returns, and \<open>mix_server_n_hop\<close> prints, before
  it compares, the MAC it expects: for a message of the client, the first MAC of the
  message; for a message with a wrong MAC, the right one.
\<close>

theorem n_hop_prints_mac_data:
  "fst (mix_client_n_hop toy_prims 4 [Some 5] [2] []) =
     [PrintInt 0, PrintClient (hmacs (projr (snd (mix_client_n_hop toy_prims 4 [Some 5] [2] []))))] \<and>
   length (hmacs (projr (snd (mix_client_n_hop toy_prims 4 [Some 5] [2] [])))) = 1 \<and>
   fst (mix_server_n_hop toy_prims 5
          [projr (snd (mix_client_n_hop toy_prims 4 [Some 5] [2] []))] True) =
     [PrintServer (hd (hmacs (projr (snd (mix_client_n_hop toy_prims 4 [Some 5] [2] [])))))] \<and>
   fst (mix_server_n_hop toy_prims 5
          [\<lparr>ec_public_key = Some 1, hmacs = [replicate 20 0],
            address = replicate 258 0, message = replicate 1002 0\<rparr>] False) =
     [PrintServer (replicate 20 96)]"
proof (intro conjI)
  let ?ap = "padded 256 [2]" and ?mp = "padded 1000 []"
  let ?m = "client_msg toy_prims 4 [pt_mul toy_prims 5 (generator toy_prims)] ?ap ?mp"
  have la: "length [2 :: byte] \<le> 256" and lm: "length ([] :: bytes) \<le> 1000" by simp_all
  have c: "projr (snd (mix_client_n_hop toy_prims 4 [Some 5] [2] [])) = ?m"
    using mix_client_n_hop_eq [OF la lm, of "[Some 5]" toy_prims 4] by (simp add: toy_pub)
  show "fst (mix_client_n_hop toy_prims 4 [Some 5] [2] []) =
     [PrintInt 0, PrintClient (hmacs (projr (snd (mix_client_n_hop toy_prims 4 [Some 5] [2] []))))]"
    unfolding c using mix_client_n_hop_single_prints [OF la lm, of toy_prims 4 "Some 5"]
    by (simp add: toy_pub)
  show "length (hmacs (projr (snd (mix_client_n_hop toy_prims 4 [Some 5] [2] [])))) = 1"
    unfolding c by (simp add: client_msg_lengths(3) [OF toy_prims_ok])
  let ?km = "sha512 toy_prims (export toy_prims (pt_mul toy_prims 4 (pt_mul toy_prims 5 (generator toy_prims))))"
  have m: "?m = \<lparr>ec_public_key = pt_mul toy_prims 4 (generator toy_prims),
      hmacs = [take 20 (hmac_sha512 toy_prims (slice 0 16 ?km)
                 (aes_ctr_enc_dec toy_prims (slice 16 32 ?km) (replicate 16 0) ?ap @
                  aes_ctr_enc_dec toy_prims (slice 32 48 ?km) (replicate 16 0) ?mp))],
      address = aes_ctr_enc_dec toy_prims (slice 16 32 ?km) (replicate 16 0) ?ap,
      message = aes_ctr_enc_dec toy_prims (slice 32 48 ?km) (replicate 16 0) ?mp\<rparr>"
    by (simp add: client_msg_Cons client_msg_Nil Let_def)
  have "fst (n_hop_decode toy_prims 5 True ?m) = [PrintServer (hd (hmacs ?m))]"
    by (subst n_hop_decode_prints [where ?h0.0 = "hd (hmacs ?m)" and others = "[]"])
      (simp_all add: m prims_ok_point [OF toy_prims_ok] prims_ok_hmac_len [OF toy_prims_ok]
        prims_ok_aes_len [OF toy_prims_ok] length_padded prims_ok_shared [OF toy_prims_ok])
  then show "fst (mix_server_n_hop toy_prims 5
          [projr (snd (mix_client_n_hop toy_prims 4 [Some 5] [2] []))] True) =
     [PrintServer (hd (hmacs (projr (snd (mix_client_n_hop toy_prims 4 [Some 5] [2] [])))))]"
    unfolding c by (simp only: mix_server_n_hop_single_prints)
  have "fst (n_hop_decode toy_prims 5 False
          \<lparr>ec_public_key = Some 1, hmacs = [replicate 20 0],
            address = replicate 258 0, message = replicate 1002 0\<rparr>) =
     [PrintServer (replicate 20 96)]"
    by (subst n_hop_decode_prints [where ?h0.0 = "replicate 20 0" and others = "[]"])
      (simp_all add: toy_prims_def slice_def sum_list_replicate)
  then show "fst (mix_server_n_hop toy_prims 5
          [\<lparr>ec_public_key = Some 1, hmacs = [replicate 20 0],
            address = replicate 258 0, message = replicate 1002 0\<rparr>] False) =
     [PrintServer (replicate 20 96)]"
    by (simp only: mix_server_n_hop_single_prints)
qed




lemma length_flip_bit [simp]: "length (flip_bit i k bs) = length bs"
  by (simp add: flip_bit_def)

lemma flip_rep: "flip_bit 0 0 (replicate 258 (0 :: byte)) = 1 # replicate 257 0"
proof -
  have "replicate 258 (0 :: byte) = 0 # replicate 257 0"
    by (simp add: replicate_Suc [symmetric] del: replicate_Suc)
  then show ?thesis by (simp add: flip_bit_def)
qed




































end
